theory Spec2Isabelle
  imports Main
begin

section \<open>Regular expressions as the source writes them\<close>

text \<open>
  \<^verbatim>\<open>src/lib.ts\<close> decides two things with regular expressions: the decomposition of a
  package specifier (\<^verbatim>\<open>packageSpecPattern\<close>, with named capture groups) and the
  legality of an alias (\<^verbatim>\<open>isValidJsVariableName\<close>). Both patterns are written
  without flags and between \<^verbatim>\<open>^\<close> and \<^verbatim>\<open>$\<close>, so a match always spans the whole
  input. The patterns are kept as syntax trees and run by a backtracking matcher that
  tries the alternatives in the order of the ECMAScript semantics: an optional part is
  tried before it is skipped, and a repetition gives back its longest run first.

  A JavaScript string is modelled as a \<^typ>\<open>string\<close>; of the line terminators that
  \<^verbatim>\<open>.\<close> refuses, line feed and carriage return are characters of that type.
\<close>

datatype citem = Ch char | Rng char char

datatype atom = Lit char | Class "citem list" | NotClass "citem list" | Dot

datatype regex =
    Atom atom
  | Seq regex regex
  | Opt regex
  | Plus atom
  | Star atom
  | Group string regex

fun citem_ok :: "citem \<Rightarrow> char \<Rightarrow> bool" where
  "citem_ok (Ch a) c = (c = a)"
| "citem_ok (Rng lo hi) c =
     ((of_char lo :: nat) \<le> of_char c \<and> (of_char c :: nat) \<le> of_char hi)"

definition lineTerminators :: "char list" where
  "lineTerminators = [CHR 0x0A, CHR 0x0D]"

fun atom_ok :: "atom \<Rightarrow> char \<Rightarrow> bool" where
  "atom_ok (Lit a) c = (c = a)"
| "atom_ok (Class items) c = list_ex (\<lambda>i. citem_ok i c) items"
| "atom_ok (NotClass items) c = (\<not> list_ex (\<lambda>i. citem_ok i c) items)"
| "atom_ok Dot c = (c \<notin> set lineTerminators)"

type_synonym groups = "string \<rightharpoonup> string"

type_synonym mstate = "groups \<times> string"

text \<open>
  \<open>many a s\<close> lists what is left of \<open>s\<close> after a run of characters of \<open>a\<close>: the
  longest run first, the empty run last.
\<close>

fun many :: "atom \<Rightarrow> string \<Rightarrow> string list" where
  "many a [] = [[]]"
| "many a (c # cs) = (if atom_ok a c then many a cs else []) @ [c # cs]"

text \<open>
  \<open>ms r (g, s)\<close> lists, in the order in which backtracking reaches them, the ways in
  which \<open>r\<close> matches a prefix of \<open>s\<close>: the groups captured so far and the input left.
\<close>

fun ms :: "regex \<Rightarrow> mstate \<Rightarrow> mstate list" where
  "ms (Atom a) (g, s) =
     (case s of [] \<Rightarrow> [] | c # cs \<Rightarrow> if atom_ok a c then [(g, cs)] else [])"
| "ms (Seq r1 r2) st = concat (map (ms r2) (ms r1 st))"
| "ms (Opt r) st = ms r st @ [st]"
| "ms (Plus a) (g, s) =
     (case s of [] \<Rightarrow> []
      | c # cs \<Rightarrow> if atom_ok a c then map (Pair g) (many a cs) else [])"
| "ms (Star a) (g, s) = map (Pair g) (many a s)"
| "ms (Group n r) (g, s) =
     map (\<lambda>(g', rest). (g'(n \<mapsto> take (length s - length rest) s), rest)) (ms r (g, s))"

text \<open>
  \<^verbatim>\<open>/^r$/\<close> applied to \<open>s\<close>: the first way of matching that leaves no input, if any.
\<close>

definition atEnd :: "mstate \<Rightarrow> bool" where
  "atEnd st = (snd st = [])"

definition regexExec :: "regex \<Rightarrow> string \<Rightarrow> groups option" where
  "regexExec r s = map_option fst (find atEnd (ms r (Map.empty, s)))"

definition regexTest :: "regex \<Rightarrow> string \<Rightarrow> bool" where
  "regexTest r s = (regexExec r s \<noteq> None)"

section \<open>The specifier parser\<close>

record Package =
  install :: string
  scope :: string
  name :: string
  version :: string
  subpath :: string

record PackageToInstall = Package +
  spec :: string
  "alias" :: string

record InstalledPackage = PackageToInstall +
  uuid :: string
  installedPath :: string

text \<open>
  \<^verbatim>\<open>/^(?<install>(?<scope>@[^\/]+\/)?(?<name>[^\/@]+)(?<version>@[^\/]+)?)(?<subpath>\/.+)?$/\<close>
\<close>

definition scopePart :: regex where
  "scopePart =
     Group ''scope''
       (Seq (Atom (Lit CHR ''@''))
         (Seq (Plus (NotClass [Ch CHR ''/''])) (Atom (Lit CHR ''/''))))"

definition namePart :: regex where
  "namePart = Group ''name'' (Plus (NotClass [Ch CHR ''/'', Ch CHR ''@'']))"

definition versionPart :: regex where
  "versionPart =
     Group ''version'' (Seq (Atom (Lit CHR ''@'')) (Plus (NotClass [Ch CHR ''/''])))"

definition subpathPart :: regex where
  "subpathPart = Group ''subpath'' (Seq (Atom (Lit CHR ''/'')) (Plus Dot))"

definition packageSpecPattern :: regex where
  "packageSpecPattern =
     Seq (Group ''install'' (Seq (Opt scopePart) (Seq namePart (Opt versionPart))))
         (Opt subpathPart)"

text \<open>\<^verbatim>\<open>match?.groups?.x || ''\<close>: no match, or a group that took no part, gives \<open>''\<close>.\<close>

definition groupOrEmpty :: "groups option \<Rightarrow> string \<Rightarrow> string" where
  "groupOrEmpty m n =
     (case m of None \<Rightarrow> []
      | Some g \<Rightarrow> (case g n of None \<Rightarrow> [] | Some v \<Rightarrow> v))"

definition parsePackageSpec :: "string \<Rightarrow> Package" where
  "parsePackageSpec s =
     (let m = regexExec packageSpecPattern s in
      \<lparr> install = groupOrEmpty m ''install'',
        scope = groupOrEmpty m ''scope'',
        name = groupOrEmpty m ''name'',
        version = groupOrEmpty m ''version'',
        subpath = groupOrEmpty m ''subpath'' \<rparr>)"

section \<open>From command-line tokens to packages\<close>

text \<open>
  \<^verbatim>\<open>arg.split('=')\<close>: the pieces of \<open>arg\<close> between the separators, in order. The
  result is never empty (\<^verbatim>\<open>''.split('=')\<close> is \<^verbatim>\<open>['']\<close>), so \<open>hd\<close> and \<open>tl\<close> below
  are applied to a nonempty list; it has one more piece than \<open>arg\<close> has separators
  (\<open>split_length\<close>), so the index \<open>1\<close> that \<open>packageFromArg\<close> reads when \<open>arg\<close> has
  a separator is in range (\<open>split_has_second\<close>).
\<close>

fun split :: "char \<Rightarrow> string \<Rightarrow> string list" where
  "split sep [] = [[]]"
| "split sep (c # cs) =
     (if c = sep then [] # split sep cs
      else (c # hd (split sep cs)) # tl (split sep cs))"

definition stringIncludes :: "string \<Rightarrow> char \<Rightarrow> bool" where
  "stringIncludes s c = (c \<in> set s)"

definition packageFromArg :: "string \<Rightarrow> PackageToInstall" where
  "packageFromArg arg =
     (let hasAlias = stringIncludes arg CHR ''='';
          spec = (if hasAlias then split CHR ''='' arg ! 1 else arg);
          parsedSpec = parsePackageSpec spec
      in \<lparr> install = install parsedSpec,
           scope = scope parsedSpec,
           name = name parsedSpec,
           version = version parsedSpec,
           subpath = subpath parsedSpec,
           spec = spec,
           alias = (if hasAlias then split CHR ''='' arg ! 0 else name parsedSpec) \<rparr>)"

definition getPackagesToInstallFromArgv :: "string list \<Rightarrow> PackageToInstall list" where
  "getPackagesToInstallFromArgv argv = map packageFromArg argv"

section \<open>Validation\<close>

definition JS_RESERVED_WORDS :: "string list" where
  "JS_RESERVED_WORDS =
     [''break'', ''case'', ''catch'', ''class'', ''const'', ''continue'', ''debugger'',
      ''default'', ''delete'', ''do'',
      ''else'', ''enum'', ''export'', ''extends'', ''false'', ''finally'', ''for'',
      ''function'', ''if'', ''import'',
      ''in'', ''instanceof'', ''let'', ''new'', ''null'', ''return'', ''super'', ''switch'',
      ''this'', ''throw'',
      ''true'', ''try'', ''typeof'', ''var'', ''void'', ''while'', ''with'', ''yield'']"

text \<open>\<^verbatim>\<open>/^[a-zA-Z_$][a-zA-Z0-9_$]*$/\<close>\<close>

definition identifierPattern :: regex where
  "identifierPattern =
     Seq (Atom (Class [Rng CHR ''a'' CHR ''z'', Rng CHR ''A'' CHR ''Z'', Ch CHR ''_'',
                       Ch CHR ''$'']))
         (Star (Class [Rng CHR ''a'' CHR ''z'', Rng CHR ''A'' CHR ''Z'',
                       Rng CHR ''0'' CHR ''9'', Ch CHR ''_'', Ch CHR ''$'']))"

definition isValidJsVariableName :: "string \<Rightarrow> bool" where
  "isValidJsVariableName n =
     (if n \<in> set JS_RESERVED_WORDS then False
      else regexTest identifierPattern n)"

datatype error =
    InvalidAlias string
  | InvalidPackageName string
  | DuplicateAlias
  | InstallFailed string
  | ImportFailed string
  | MkdtempFailed string

text \<open>
  What the program takes from outside itself. \<^verbatim>\<open>validate-npm-package-name\<close>,
  \<^verbatim>\<open>string-argv\<close>, the shell that runs \<^verbatim>\<open>npm\<close>, the UUID generator, \<^verbatim>\<open>mkdtemp\<close>
  and the module loader are not code of the repository: they are parameters of the model.
  \<^item> \<open>validateNpmPackageName n\<close> is the \<^verbatim>\<open>errors\<close> property of the library's result
    (\<open>None\<close> when the property is absent);
  \<^item> \<open>npmInstall cmd\<close> tells whether the shell command \<open>cmd\<close> succeeds;
  \<^item> \<open>randomUUID k\<close> is the \<open>k\<close>-th identifier the process draws;
  \<^item> \<open>mkdtemp prefix\<close> is the directory created, or \<open>None\<close> when creation fails;
  \<^item> \<open>loadModule specifier base\<close> is the loaded module (its enumerable export names
    with their values), or \<open>None\<close> when resolution or loading fails.
\<close>

datatype jsval =
    JUndefined
  | JNull
  | JBool bool
  | JNum int
  | JNaN
  | JStr string
  | JFun string
  | JObj "(string \<times> jsval) list"

type_synonym module = "(string \<times> jsval) list"

record env =
  validateNpmPackageName :: "string \<Rightarrow> string list option"
  stringArgv :: "string \<Rightarrow> string list"
  npmInstall :: "string \<Rightarrow> bool"
  randomUUID :: "nat \<Rightarrow> string"
  mkdtemp :: "string \<Rightarrow> string option"
  loadModule :: "string \<Rightarrow> string \<Rightarrow> module option"

text \<open>\<^verbatim>\<open>validateNpmPackageName(packageName).errors?.length\<close> as a condition.\<close>

definition hasErrors :: "string list option \<Rightarrow> bool" where
  "hasErrors r = (case r of None \<Rightarrow> False | Some es \<Rightarrow> length es \<noteq> 0)"

text \<open>The \<^verbatim>\<open>forEach\<close> of \<^verbatim>\<open>validatePackageNames\<close>: the first throw ends it.\<close>

fun checkEach :: "env \<Rightarrow> PackageToInstall list \<Rightarrow> error + unit" where
  "checkEach e [] = Inr ()"
| "checkEach e (pkg # pkgs) =
     (if \<not> isValidJsVariableName (alias pkg) then Inl (InvalidAlias (alias pkg))
      else if hasErrors (validateNpmPackageName e (scope pkg @ name pkg))
        then Inl (InvalidPackageName (scope pkg @ name pkg))
      else checkEach e pkgs)"

definition validatePackageNames ::
  "env \<Rightarrow> PackageToInstall list \<Rightarrow> InstalledPackage list \<Rightarrow> error + unit" where
  "validatePackageNames e newPackages alreadyInstalled =
     (case checkEach e newPackages of
        Inl err \<Rightarrow> Inl err
      | Inr _ \<Rightarrow>
          (let allAliases = map alias newPackages @ map alias alreadyInstalled;
               uniqueAliases = set allAliases
           in if length allAliases \<noteq> card uniqueAliases then Inl DuplicateAlias
              else Inr ()))"

section \<open>Installation\<close>

text \<open>
  The part of the outside world the program acts on: how many UUIDs were drawn, the
  shell commands issued so far (oldest first), and the install roots that exist, each
  with the identifiers of the packages installed under it. Console output is left out.
\<close>

record world =
  uuidCount :: nat
  shell :: "string list"
  fs :: "string \<rightharpoonup> string list"

text \<open>\<^verbatim>\<open>path.join\<close>, on segments that need no normalisation.\<close>

fun join :: "string list \<Rightarrow> string" where
  "join [] = ''.''"
| "join [x] = x"
| "join (x # y # ys) = x @ ''/'' @ join (y # ys)"

definition createInstallationDirectory ::
  "env \<Rightarrow> string \<Rightarrow> world \<Rightarrow> (error + string) \<times> world" where
  "createInstallationDirectory e tmpdir w =
     (let path = join [tmpdir, ''repl-with-'']
      in case mkdtemp e path of
           None \<Rightarrow> (Inl (MkdtempFailed path), w)
         | Some dir \<Rightarrow> (Inr dir, w\<lparr>fs := (fs w)(dir \<mapsto> [])\<rparr>))"

definition cleanup :: "string \<Rightarrow> world \<Rightarrow> world" where
  "cleanup path w = w\<lparr>fs := (fs w)(path := None)\<rparr>"

definition installPackage ::
  "env \<Rightarrow> PackageToInstall \<Rightarrow> string \<Rightarrow> world \<Rightarrow> (error + InstalledPackage) \<times> world" where
  "installPackage e packageToInstall installPath w =
     (let uuid = randomUUID e (uuidCount w);
          cmd = ''npm install -g '' @ uuid @ ''@npm:'' @ install packageToInstall
                  @ '' --prefix '' @ installPath;
          w1 = w\<lparr>uuidCount := Suc (uuidCount w), shell := shell w @ [cmd]\<rparr>
      in if npmInstall e cmd
         then (Inr \<lparr> install = install packageToInstall,
                     scope = scope packageToInstall,
                     name = name packageToInstall,
                     version = version packageToInstall,
                     subpath = subpath packageToInstall,
                     spec = spec packageToInstall,
                     alias = alias packageToInstall,
                     uuid = uuid,
                     installedPath = join [installPath, ''lib'', ''node_modules'', uuid] \<rparr>,
               w1\<lparr>fs := (fs w1)(installPath \<mapsto>
                        (case fs w1 installPath of None \<Rightarrow> [] | Some us \<Rightarrow> us) @ [uuid])\<rparr>)
         else (Inl (InstallFailed (install packageToInstall)), w1))"

text \<open>
  \<^verbatim>\<open>packagesToInstall.map(pkg => installPackage(pkg, installPath))\<close> starts every
  installation, in list order; \<^verbatim>\<open>Promise.all\<close> then fulfils with all the results, in
  list order, or rejects. Which rejection it reports when several installations fail
  depends on timing; the model reports the first in list order.
\<close>

fun startAll ::
  "env \<Rightarrow> PackageToInstall list \<Rightarrow> string \<Rightarrow> world \<Rightarrow> (error + InstalledPackage) list \<times> world" where
  "startAll e [] installPath w = ([], w)"
| "startAll e (pkg # pkgs) installPath w =
     (case installPackage e pkg installPath w of
        (r, w1) \<Rightarrow> (case startAll e pkgs installPath w1 of (rs, w2) \<Rightarrow> (r # rs, w2)))"

fun promiseAll :: "(error + 'a) list \<Rightarrow> error + 'a list" where
  "promiseAll [] = Inr []"
| "promiseAll (Inl err # rs) = Inl err"
| "promiseAll (Inr x # rs) =
     (case promiseAll rs of Inl err \<Rightarrow> Inl err | Inr xs \<Rightarrow> Inr (x # xs))"

definition installPackages ::
  "env \<Rightarrow> PackageToInstall list \<Rightarrow> string \<Rightarrow> world \<Rightarrow> (error + InstalledPackage list) \<times> world" where
  "installPackages e packagesToInstall installPath w =
     (case startAll e packagesToInstall installPath w of
        (rs, w1) \<Rightarrow> (promiseAll rs, w1))"

section \<open>Importing into the evaluation context\<close>

fun truthy :: "jsval \<Rightarrow> bool" where
  "truthy JUndefined = False"
| "truthy JNull = False"
| "truthy (JBool b) = b"
| "truthy (JNum n) = (n \<noteq> 0)"
| "truthy JNaN = False"
| "truthy (JStr s) = (s \<noteq> [])"
| "truthy (JFun f) = True"
| "truthy (JObj ps) = True"

definition objectKeys :: "module \<Rightarrow> string list" where
  "objectKeys pkg = map fst pkg"

definition getProp :: "module \<Rightarrow> string \<Rightarrow> jsval" where
  "getProp pkg k = (case map_of pkg k of None \<Rightarrow> JUndefined | Some v \<Rightarrow> v)"

text \<open>\<^verbatim>\<open>resolve(installedPath, '..')\<close>: the path without its last segment.\<close>

definition parentDir :: "string \<Rightarrow> string" where
  "parentDir p = rev (drop 1 (dropWhile (\<lambda>c. c \<noteq> CHR ''/'') (rev p)))"

type_synonym jscontext = "string \<rightharpoonup> jsval"

definition importPackageIntoContext ::
  "env \<Rightarrow> jscontext \<Rightarrow> InstalledPackage \<Rightarrow> error + jscontext" where
  "importPackageIntoContext e ctx installedPackage =
     (let nodeModulesPath = ''file://'' @ parentDir (installedPath installedPackage)
      in case loadModule e (uuid installedPackage @ subpath installedPackage) nodeModulesPath of
           None \<Rightarrow> Inl (ImportFailed (alias installedPackage))
         | Some pkg \<Rightarrow>
             (let onlyHasDefaultExport =
                    (if length (objectKeys pkg) = 1 then getProp pkg ''default''
                     else JBool False)
              in Inr (ctx(alias installedPackage \<mapsto>
                        (if truthy onlyHasDefaultExport then getProp pkg ''default''
                         else JObj pkg)))))"

text \<open>
  The \<^verbatim>\<open>for\<close> loop of \<^verbatim>\<open>importPackagesIntoContext\<close>: bindings made before a failure
  stay in the context, which the loop mutates.
\<close>

fun importPackagesIntoContext ::
  "env \<Rightarrow> jscontext \<Rightarrow> InstalledPackage list \<Rightarrow> error option \<times> jscontext" where
  "importPackagesIntoContext e ctx [] = (None, ctx)"
| "importPackagesIntoContext e ctx (pkg # pkgs) =
     (case importPackageIntoContext e ctx pkg of
        Inl err \<Rightarrow> (Some err, ctx)
      | Inr ctx1 \<Rightarrow> importPackagesIntoContext e ctx1 pkgs)"

section \<open>The session\<close>

record session =
  installedPackages :: "InstalledPackage list"
  replContext :: jscontext
  installPath :: string

text \<open>
  \<^verbatim>\<open>main\<close> of \<^verbatim>\<open>src/index.ts\<close>, on the tokens after the script name. A failure to
  create the install root is thrown before the \<^verbatim>\<open>try\<close>; every later failure runs
  \<^verbatim>\<open>cleanup\<close> and is thrown again. The evaluation context holds the bindings the
  program makes; those of the shell itself are left out.
\<close>

definition main :: "env \<Rightarrow> string \<Rightarrow> string list \<Rightarrow> world \<Rightarrow> (error + session) \<times> world" where
  "main e tmpdir packagesInArgv w =
     (case createInstallationDirectory e tmpdir w of
        (Inl err, w1) \<Rightarrow> (Inl err, w1)
      | (Inr path, w1) \<Rightarrow>
          (let packagesToImport = getPackagesToInstallFromArgv packagesInArgv
           in case validatePackageNames e packagesToImport [] of
                Inl err \<Rightarrow> (Inl err, cleanup path w1)
              | Inr _ \<Rightarrow>
                  (case installPackages e packagesToImport path w1 of
                     (Inl err, w2) \<Rightarrow> (Inl err, cleanup path w2)
                   | (Inr installed, w2) \<Rightarrow>
                       (case importPackagesIntoContext e Map.empty installed of
                          (Some err, ctx) \<Rightarrow> (Inl err, cleanup path w2)
                        | (None, ctx) \<Rightarrow>
                            (Inr \<lparr> installedPackages = installed, replContext = ctx,
                                   installPath = path \<rparr>, w2)))))"

text \<open>
  The handler of \<^verbatim>\<open>.import\<close>, when nothing else runs between its
  \<^verbatim>\<open>await installPackages\<close> and its resumption. Every error is caught and printed; the
  first component of the result is the error printed, if any.
\<close>

definition importAdditionalPackagesViaCommand ::
  "env \<Rightarrow> string \<Rightarrow> session \<times> world \<Rightarrow> error option \<times> session \<times> world" where
  "importAdditionalPackagesViaCommand e args st =
     (case st of (s, w) \<Rightarrow>
        (let argv = stringArgv e args;
             newPackages = getPackagesToInstallFromArgv argv
         in case validatePackageNames e newPackages (installedPackages s) of
              Inl err \<Rightarrow> (Some err, s, w)
            | Inr _ \<Rightarrow>
                (case installPackages e newPackages (installPath s) w of
                   (Inl err, w1) \<Rightarrow> (Some err, s, w1)
                 | (Inr newlyInstalledPackages, w1) \<Rightarrow>
                     (let s1 = s\<lparr>installedPackages :=
                                   installedPackages s @ newlyInstalledPackages\<rparr>
                      in case importPackagesIntoContext e (replContext s1)
                                newlyInstalledPackages of
                           (r, ctx) \<Rightarrow> (r, s1\<lparr>replContext := ctx\<rparr>, w1)))))"

text \<open>
  The handler is an \<^verbatim>\<open>async\<close> function, and the shell does not wait for the promise it
  returns: the handler runs up to \<^verbatim>\<open>await installPackages(...)\<close>, and the shell is
  free to take the next line of input before the handler resumes. The two parts of the
  handler:
  \<^item> \<open>importBegin\<close> runs up to the \<^verbatim>\<open>await\<close>. A validation error is thrown, caught and
    printed there (\<open>Inl\<close>). Otherwise every installation has been started and the
    handler waits; \<open>Inr r\<close> is what the awaited promise settles with.
  \<^item> \<open>importResume\<close> runs from the \<^verbatim>\<open>await\<close> to the end, on the session as it is by
    then: a rejection is caught and printed; on fulfilment the new packages are pushed
    and imported. The imports touch the context only and are taken as one step.
  Run one right after the other, the two parts are the handler above (lemma
  \<open>import_split\<close>).
\<close>

definition importBegin ::
  "env \<Rightarrow> string \<Rightarrow> session \<times> world \<Rightarrow>
     (error + (error + InstalledPackage list)) \<times> world" where
  "importBegin e args st =
     (case st of (s, w) \<Rightarrow>
        (let argv = stringArgv e args;
             newPackages = getPackagesToInstallFromArgv argv
         in case validatePackageNames e newPackages (installedPackages s) of
              Inl err \<Rightarrow> (Inl err, w)
            | Inr _ \<Rightarrow>
                (case installPackages e newPackages (installPath s) w of
                   (r, w1) \<Rightarrow> (Inr r, w1))))"

definition importResume ::
  "env \<Rightarrow> error + InstalledPackage list \<Rightarrow> session \<Rightarrow> error option \<times> session" where
  "importResume e r s =
     (case r of
        Inl err \<Rightarrow> (Some err, s)
      | Inr newlyInstalledPackages \<Rightarrow>
          (let s1 = s\<lparr>installedPackages := installedPackages s @ newlyInstalledPackages\<rparr>
           in case importPackagesIntoContext e (replContext s1) newlyInstalledPackages of
                (x, ctx) \<Rightarrow> (x, s1\<lparr>replContext := ctx\<rparr>)))"

text \<open>
  What happens in a session after startup, one event at a time. The state is the
  session, the world and the handlers of \<^verbatim>\<open>.import\<close> that wait at their \<^verbatim>\<open>await\<close>, each
  with what its promise will settle with, oldest first.
  \<^item> \<open>ImportEntered args\<close>: the line \<^verbatim>\<open>.import args\<close> is entered; its handler runs up to
    its \<^verbatim>\<open>await\<close>, or to its end when validation fails.
  \<^item> \<open>InstallsSettled k\<close>: the promise of the \<open>k\<close>-th waiting handler settles and the
    handler runs to its end.
  \<^item> \<open>PackagesEntered\<close>, \<open>DebugEntered\<close>: the two commands that only print.
  \<^item> \<open>ResetEvent\<close>: the context is made anew and the installed packages are imported
    into it.
  The exit event ends the session after \<^verbatim>\<open>cleanup\<close>.
\<close>

datatype event =
    ImportEntered string
  | InstallsSettled nat
  | PackagesEntered
  | DebugEntered
  | ResetEvent

type_synonym replState = "session \<times> world \<times> (error + InstalledPackage list) list"

fun replStep :: "env \<Rightarrow> event \<Rightarrow> replState \<Rightarrow> replState" where
  "replStep e (ImportEntered args) (s, w, waiting) =
     (case importBegin e args (s, w) of
        (Inl err, w1) \<Rightarrow> (s, w1, waiting)
      | (Inr r, w1) \<Rightarrow> (s, w1, waiting @ [r]))"
| "replStep e (InstallsSettled k) (s, w, waiting) =
     (if k < length waiting
      then (snd (importResume e (waiting ! k) s), w, take k waiting @ drop (Suc k) waiting)
      else (s, w, waiting))"
| "replStep e PackagesEntered st = st"
| "replStep e DebugEntered st = st"
| "replStep e ResetEvent (s, w, waiting) =
     (s\<lparr>replContext := snd (importPackagesIntoContext e Map.empty (installedPackages s))\<rparr>,
      w, waiting)"

definition runEvents :: "env \<Rightarrow> event list \<Rightarrow> replState \<Rightarrow> replState" where
  "runEvents e evs st = fold (replStep e) evs st"

text \<open>
  A session without overlap: every \<^verbatim>\<open>.import\<close> is settled before the next line is
  entered.
\<close>

fun serialImports :: "string list \<Rightarrow> event list" where
  "serialImports [] = []"
| "serialImports (args # rest) = ImportEntered args # InstallsSettled 0 # serialImports rest"

definition onExit :: "session \<times> world \<Rightarrow> world" where
  "onExit st = cleanup (installPath (fst st)) (snd st)"

section \<open>The specifier grammar, part by part\<close>

text \<open>
  What each part of \<^verbatim>\<open>packageSpecPattern\<close> accepts, read off the pattern:
  \<^item> the scope \<^verbatim>\<open>@[^\/]+\/\<close>: an \<^verbatim>\<open>@\<close>, a nonempty run without \<^verbatim>\<open>/\<close>, a \<^verbatim>\<open>/\<close>;
  \<^item> the name \<^verbatim>\<open>[^\/@]+\<close>: a nonempty run without \<^verbatim>\<open>/\<close> and \<^verbatim>\<open>@\<close>;
  \<^item> the version \<^verbatim>\<open>@[^\/]+\<close>: an \<^verbatim>\<open>@\<close> and a nonempty run without \<^verbatim>\<open>/\<close>;
  \<^item> the subpath \<^verbatim>\<open>\/.+\<close>: a \<^verbatim>\<open>/\<close> and a nonempty run without line terminators.
  \<open>specParts\<close> holds of four texts that can stand for the four parts, an optional part
  being empty when it is absent; \<open>specGroups\<close> is what the groups then capture.
\<close>

definition isScope :: "string \<Rightarrow> bool" where
  "isScope x =
     (case x of [] \<Rightarrow> False
      | c # t \<Rightarrow> c = CHR ''@'' \<and> t \<noteq> [] \<and> last t = CHR ''/'' \<and> butlast t \<noteq> []
                 \<and> CHR ''/'' \<notin> set (butlast t))"

definition isName :: "string \<Rightarrow> bool" where
  "isName x = (x \<noteq> [] \<and> (\<forall>c\<in>set x. c \<noteq> CHR ''/'' \<and> c \<noteq> CHR ''@''))"

definition isVersion :: "string \<Rightarrow> bool" where
  "isVersion x =
     (case x of [] \<Rightarrow> False
      | c # t \<Rightarrow> c = CHR ''@'' \<and> t \<noteq> [] \<and> CHR ''/'' \<notin> set t)"

definition isSubpath :: "string \<Rightarrow> bool" where
  "isSubpath x =
     (case x of [] \<Rightarrow> False
      | c # t \<Rightarrow> c = CHR ''/'' \<and> t \<noteq> [] \<and> (\<forall>d\<in>set t. d \<notin> set lineTerminators))"

definition specParts :: "string \<Rightarrow> string \<Rightarrow> string \<Rightarrow> string \<Rightarrow> bool" where
  "specParts sc nm ver sub =
     ((sc = [] \<or> isScope sc) \<and> isName nm \<and> (ver = [] \<or> isVersion ver) \<and> (sub = [] \<or> isSubpath sub))"

definition optGroup :: "string \<Rightarrow> string \<Rightarrow> groups \<Rightarrow> groups" where
  "optGroup n x g = (if x = [] then g else g(n \<mapsto> x))"

definition specGroups :: "string \<Rightarrow> string \<Rightarrow> string \<Rightarrow> string \<Rightarrow> groups \<Rightarrow> groups" where
  "specGroups sc nm ver sub g =
     optGroup ''subpath'' sub
       ((optGroup ''version'' ver ((optGroup ''scope'' sc g)(''name'' \<mapsto> nm)))
          (''install'' \<mapsto> sc @ nm @ ver))"

section \<open>The pattern of the alias check, in words\<close>

text \<open>
  What the pattern of \<^verbatim>\<open>isValidJsVariableName\<close> accepts, read off the pattern: a letter
  of \<^verbatim>\<open>a-z\<close> or \<^verbatim>\<open>A-Z\<close>, an underscore or a dollar sign, then any number of those
  or of the digits \<^verbatim>\<open>0-9\<close>. This is the code's own, ASCII-only notion; the identifiers
  of the host language are defined apart, below.
\<close>

definition isLetter :: "char \<Rightarrow> bool" where
  "isLetter c = ((97 \<le> (of_char c :: nat) \<and> (of_char c :: nat) \<le> 122)
               \<or> (65 \<le> (of_char c :: nat) \<and> (of_char c :: nat) \<le> 90))"

definition isDigit :: "char \<Rightarrow> bool" where
  "isDigit c = (48 \<le> (of_char c :: nat) \<and> (of_char c :: nat) \<le> 57)"

definition asciiIdentifierStart :: "char \<Rightarrow> bool" where
  "asciiIdentifierStart c = (isLetter c \<or> c = CHR ''_'' \<or> c = CHR ''$'')"

definition asciiIdentifierPart :: "char \<Rightarrow> bool" where
  "asciiIdentifierPart c = (asciiIdentifierStart c \<or> isDigit c)"

definition isAsciiIdentifier :: "string \<Rightarrow> bool" where
  "isAsciiIdentifier n =
     (case n of [] \<Rightarrow> False
      | c # cs \<Rightarrow> asciiIdentifierStart c \<and> (\<forall>d\<in>set cs. asciiIdentifierPart d))"

section \<open>Identifiers and reserved words of the host language\<close>

text \<open>
  The host language is JavaScript. Its identifier grammar and its reserved words are
  those of ECMAScript, and are written down here from the language standard, not from
  \<^verbatim>\<open>src/lib.ts\<close>, to compare the alias check with them.
  \<^item> An \<^verbatim>\<open>IdentifierName\<close> starts with a character of Unicode's \<^verbatim>\<open>ID_Start\<close>, a
    \<^verbatim>\<open>$\<close> or a \<^verbatim>\<open>_\<close>, and goes on with characters of \<^verbatim>\<open>ID_Continue\<close> or \<^verbatim>\<open>$\<close>.
    A \<^typ>\<open>char\<close> stands for a code unit below 256. Of these, \<^verbatim>\<open>ID_Start\<close> holds the
    ASCII letters, U+00AA, U+00B5, U+00BA, U+00C0 to U+00D6, U+00D8 to U+00F6 and U+00F8
    to U+00FF; \<^verbatim>\<open>ID_Continue\<close> adds the digits, \<^verbatim>\<open>_\<close> and U+00B7.
  \<^item> \<^verbatim>\<open>ReservedWord\<close> is the list of the standard. The words that only strict mode
    refuses as identifiers (\<^verbatim>\<open>let\<close>, \<^verbatim>\<open>static\<close> and others) are not in it.
\<close>

definition hostIdentifierStart :: "char \<Rightarrow> bool" where
  "hostIdentifierStart c =
     (isLetter c \<or> c = CHR ''$'' \<or> c = CHR ''_''
      \<or> (of_char c :: nat) = 170 \<or> (of_char c :: nat) = 181 \<or> (of_char c :: nat) = 186
      \<or> (192 \<le> (of_char c :: nat) \<and> (of_char c :: nat) \<le> 214)
      \<or> (216 \<le> (of_char c :: nat) \<and> (of_char c :: nat) \<le> 246)
      \<or> (248 \<le> (of_char c :: nat) \<and> (of_char c :: nat) \<le> 255))"

definition hostIdentifierPart :: "char \<Rightarrow> bool" where
  "hostIdentifierPart c = (hostIdentifierStart c \<or> isDigit c \<or> (of_char c :: nat) = 183)"

definition hostIdentifierName :: "string \<Rightarrow> bool" where
  "hostIdentifierName n =
     (case n of [] \<Rightarrow> False
      | c # cs \<Rightarrow> hostIdentifierStart c \<and> (\<forall>d\<in>set cs. hostIdentifierPart d))"

definition hostReservedWords :: "string list" where
  "hostReservedWords =
     [''await'', ''break'', ''case'', ''catch'', ''class'', ''const'', ''continue'',
      ''debugger'', ''default'', ''delete'', ''do'', ''else'', ''enum'', ''export'',
      ''extends'', ''false'', ''finally'', ''for'', ''function'', ''if'', ''import'', ''in'',
      ''instanceof'', ''new'', ''null'', ''return'', ''super'', ''switch'', ''this'', ''throw'',
      ''true'', ''try'', ''typeof'', ''var'', ''void'', ''while'', ''with'', ''yield'']"

section \<open>A sample environment\<close>

text \<open>
  One outside world on which the model can be run: every installation succeeds, and
  every module loaded has the single export \<^verbatim>\<open>default\<close> with the value \<^verbatim>\<open>0\<close>.
\<close>

definition sampleEnv :: env where
  "sampleEnv =
     \<lparr> validateNpmPackageName =
         (\<lambda>n. if n = [] then Some [''name length must be greater than zero''] else None),
       stringArgv = (\<lambda>s. filter (\<lambda>x. x \<noteq> []) (split CHR '' '' s)),
       npmInstall = (\<lambda>cmd. True),
       randomUUID = (\<lambda>k. ''uuid-'' @ replicate (Suc k) CHR ''x''),
       mkdtemp = (\<lambda>p. Some (p @ ''XXXXXX'')),
       loadModule = (\<lambda>s b. Some [(''default'', JNum 0)]) \<rparr>"

definition sampleWorld :: world where
  "sampleWorld = \<lparr> uuidCount = 0, shell = [], fs = Map.empty \<rparr>"

text \<open>The same world with a registry that holds \<open>lodash\<close> and nothing else.\<close>

definition lodashOnlyEnv :: env where
  "lodashOnlyEnv =
     sampleEnv\<lparr>npmInstall :=
       (\<lambda>cmd. take 12 (dropWhile (\<lambda>c. c \<noteq> CHR ''@'') cmd) = ''@npm:lodash '')\<rparr>"

text \<open>The session that starts with the single token \<open>lodash\<close> in the sample world.\<close>

definition sampleStart :: "(error + session) \<times> world" where
  "sampleStart = main sampleEnv ''/tmp'' [''lodash''] sampleWorld"

definition sampleSession :: session where
  "sampleSession = projr (fst sampleStart)"

text \<open>A session in which nothing is installed yet.\<close>

definition emptySession :: session where
  "emptySession =
     \<lparr> installedPackages = [], replContext = Map.empty,
       installPath = ''/tmp/repl-with-XXXXXX'' \<rparr>"

section \<open>Properties\<close>

subsection \<open>The grammar predicates\<close>

lemma isScope_iff:
  "isScope x \<longleftrightarrow> (\<exists>b. b \<noteq> [] \<and> CHR ''/'' \<notin> set b \<and> x = CHR ''@'' # b @ ''/'')"
proof
  assume "isScope x"
  then obtain t where t: "x = CHR ''@'' # t" "t \<noteq> []" "last t = CHR ''/''" "butlast t \<noteq> []"
    "CHR ''/'' \<notin> set (butlast t)"
    unfolding isScope_def by (cases x) auto
  from t(2,3) have "t = butlast t @ ''/''" by (metis append_butlast_last_id)
  with t show "\<exists>b. b \<noteq> [] \<and> CHR ''/'' \<notin> set b \<and> x = CHR ''@'' # b @ ''/''" by metis
next
  assume "\<exists>b. b \<noteq> [] \<and> CHR ''/'' \<notin> set b \<and> x = CHR ''@'' # b @ ''/''"
  then show "isScope x" unfolding isScope_def by auto
qed

lemma isVersion_iff:
  "isVersion x \<longleftrightarrow> (\<exists>b. b \<noteq> [] \<and> CHR ''/'' \<notin> set b \<and> x = CHR ''@'' # b)"
  unfolding isVersion_def by (cases x) auto

lemma isSubpath_iff:
  "isSubpath x \<longleftrightarrow>
     (\<exists>b. b \<noteq> [] \<and> (\<forall>c\<in>set b. c \<notin> set lineTerminators) \<and> x = CHR ''/'' # b)"
  unfolding isSubpath_def by (cases x) auto

subsection \<open>The matcher\<close>

lemma many_iff:
  "r \<in> set (many a s) \<longleftrightarrow> (\<exists>p. s = p @ r \<and> (\<forall>c\<in>set p. atom_ok a c))"
proof (induction s)
  case Nil
  then show ?case by auto
next
  case (Cons c cs)
  show ?case
  proof
    assume "r \<in> set (many a (c # cs))"
    then consider "atom_ok a c" "r \<in> set (many a cs)" | "r = c # cs"
      by (auto split: if_splits)
    then show "\<exists>p. c # cs = p @ r \<and> (\<forall>c\<in>set p. atom_ok a c)"
    proof cases
      case 1
      with Cons obtain p where "cs = p @ r" "\<forall>x\<in>set p. atom_ok a x" by auto
      with 1 have "c # cs = (c # p) @ r \<and> (\<forall>x\<in>set (c # p). atom_ok a x)" by simp
      then show ?thesis by blast
    next
      case 2
      then have "c # cs = [] @ r \<and> (\<forall>x\<in>set []. atom_ok a x)" by simp
      then show ?thesis by blast
    qed
  next
    assume "\<exists>p. c # cs = p @ r \<and> (\<forall>c\<in>set p. atom_ok a c)"
    then obtain p where p: "c # cs = p @ r" "\<forall>x\<in>set p. atom_ok a x" by blast
    show "r \<in> set (many a (c # cs))"
    proof (cases p)
      case Nil
      with p have "r = c # cs" by simp
      then show ?thesis by simp
    next
      case (Cons x p')
      with p have "cs = p' @ r" "atom_ok a c" "\<forall>x\<in>set p'. atom_ok a x" by auto
      with Cons.IH show ?thesis by auto
    qed
  qed
qed

lemma ms_Atom_iff:
  "(g', r') \<in> set (ms (Atom a) (g, s)) \<longleftrightarrow> g' = g \<and> atom_ok a (hd s) \<and> s = hd s # r'"
  by (cases s) auto

lemma ms_Plus_iff:
  "(g', r') \<in> set (ms (Plus a) (g, s)) \<longleftrightarrow>
     g' = g \<and> (\<exists>p. p \<noteq> [] \<and> s = p @ r' \<and> (\<forall>c\<in>set p. atom_ok a c))"
proof (cases s)
  case Nil
  then show ?thesis by auto
next
  case (Cons c cs)
  show ?thesis
  proof
    assume "(g', r') \<in> set (ms (Plus a) (g, s))"
    with Cons have "g' = g" "atom_ok a c" "r' \<in> set (many a cs)"
      by (auto split: if_splits)
    then obtain p where "cs = p @ r'" "\<forall>x\<in>set p. atom_ok a x"
      by (auto simp: many_iff)
    with Cons \<open>atom_ok a c\<close> have "c # p \<noteq> [] \<and> s = (c # p) @ r' \<and> (\<forall>x\<in>set (c # p). atom_ok a x)"
      by simp
    with \<open>g' = g\<close> show "g' = g \<and> (\<exists>p. p \<noteq> [] \<and> s = p @ r' \<and> (\<forall>c\<in>set p. atom_ok a c))"
      by blast
  next
    assume "g' = g \<and> (\<exists>p. p \<noteq> [] \<and> s = p @ r' \<and> (\<forall>c\<in>set p. atom_ok a c))"
    then obtain p where p: "g' = g" "p \<noteq> []" "s = p @ r'" "\<forall>x\<in>set p. atom_ok a x" by blast
    then obtain x p' where "p = x # p'" by (cases p) auto
    with p Cons have "c = x" "cs = p' @ r'" "atom_ok a c" "\<forall>x\<in>set p'. atom_ok a x" by auto
    then have "r' \<in> set (many a cs)" by (auto simp: many_iff)
    with Cons \<open>atom_ok a c\<close> p(1) show "(g', r') \<in> set (ms (Plus a) (g, s))" by auto
  qed
qed

lemma ms_Star_iff:
  "(g', r') \<in> set (ms (Star a) (g, s)) \<longleftrightarrow>
     g' = g \<and> (\<exists>p. s = p @ r' \<and> (\<forall>c\<in>set p. atom_ok a c))"
  by (auto simp: many_iff)

lemma ms_Seq_iff:
  "st' \<in> set (ms (Seq r1 r2) st) \<longleftrightarrow> (\<exists>m \<in> set (ms r1 st). st' \<in> set (ms r2 m))"
  by auto

lemma ms_Opt_iff:
  "st' \<in> set (ms (Opt r) st) \<longleftrightarrow> st' \<in> set (ms r st) \<or> st' = st"
  by auto

lemma ms_suffix:
  "(g', r') \<in> set (ms r (g, s)) \<Longrightarrow> \<exists>p. s = p @ r'"
proof (induction r arbitrary: g s g' r')
  case (Atom a)
  then show ?case by (cases s) (auto split: if_splits)
next
  case (Seq r1 r2)
  then obtain gm rm where m: "(gm, rm) \<in> set (ms r1 (g, s))" "(g', r') \<in> set (ms r2 (gm, rm))"
    by auto
  from Seq.IH(1)[OF m(1)] Seq.IH(2)[OF m(2)] show ?case by auto
next
  case (Opt r)
  then show ?case by auto
next
  case (Plus a)
  then show ?case unfolding ms_Plus_iff by blast
next
  case (Star a)
  then show ?case unfolding ms_Star_iff by blast
next
  case (Group n r)
  then show ?case by auto
qed

lemma ms_Group_iff:
  "(g', r') \<in> set (ms (Group n r) (g, s)) \<longleftrightarrow>
     (\<exists>g'' p. (g'', r') \<in> set (ms r (g, s)) \<and> s = p @ r' \<and> g' = g''(n \<mapsto> p))"
proof
  assume "(g', r') \<in> set (ms (Group n r) (g, s))"
  then obtain g'' where m: "(g'', r') \<in> set (ms r (g, s))"
    and g': "g' = g''(n \<mapsto> take (length s - length r') s)"
    by auto
  from ms_suffix[OF m] obtain p where "s = p @ r'" by blast
  with m g' show "\<exists>g'' p. (g'', r') \<in> set (ms r (g, s)) \<and> s = p @ r' \<and> g' = g''(n \<mapsto> p)"
    by auto
next
  assume "\<exists>g'' p. (g'', r') \<in> set (ms r (g, s)) \<and> s = p @ r' \<and> g' = g''(n \<mapsto> p)"
  then obtain g'' p where m: "(g'', r') \<in> set (ms r (g, s))" "s = p @ r'" "g' = g''(n \<mapsto> p)"
    by blast
  then have "g' = g''(n \<mapsto> take (length s - length r') s)" by simp
  with m(1) show "(g', r') \<in> set (ms (Group n r) (g, s))"
    by (auto simp: image_iff intro!: bexI[of _ "(g'', r')"])
qed

subsection \<open>The specifier pattern\<close>

lemma scope_body:
  "(g', r') \<in> set (ms (Seq (Atom (Lit CHR ''@'')) (Seq (Plus (NotClass [Ch CHR ''/''])) (Atom (Lit CHR ''/'')))) (g, s))
    \<longleftrightarrow> g' = g \<and> (\<exists>b. b \<noteq> [] \<and> CHR ''/'' \<notin> set b \<and> s = CHR ''@'' # b @ CHR ''/'' # r')"
  (is "?L \<longleftrightarrow> ?R")
proof
  assume ?L
  then obtain g1 r1 g2 r2 where
    a: "(g1, r1) \<in> set (ms (Atom (Lit CHR ''@'')) (g, s))" and
    b: "(g2, r2) \<in> set (ms (Plus (NotClass [Ch CHR ''/''])) (g1, r1))" and
    c: "(g', r') \<in> set (ms (Atom (Lit CHR ''/'')) (g2, r2))"
    unfolding ms_Seq_iff by auto
  from a have a': "g1 = g" "s = CHR ''@'' # r1" by (auto simp: ms_Atom_iff)
  from b obtain p where b': "g2 = g1" "p \<noteq> []" "r1 = p @ r2" "\<forall>c\<in>set p. atom_ok (NotClass [Ch CHR ''/'']) c"
    unfolding ms_Plus_iff by blast
  from c have c': "g' = g2" "r2 = CHR ''/'' # r'" by (auto simp: ms_Atom_iff)
  from b'(4) have "CHR ''/'' \<notin> set p" by auto
  with a' b' c' show ?R by auto
next
  assume ?R
  then obtain b where r: "g' = g" "b \<noteq> []" "CHR ''/'' \<notin> set b" "s = CHR ''@'' # b @ CHR ''/'' # r'"
    by blast
  have a: "(g, b @ CHR ''/'' # r') \<in> set (ms (Atom (Lit CHR ''@'')) (g, s))"
    using r(4) by (simp add: ms_Atom_iff)
  have "\<forall>c\<in>set b. atom_ok (NotClass [Ch CHR ''/'']) c" using r(3) by auto
  with r(2) have b: "(g, CHR ''/'' # r') \<in> set (ms (Plus (NotClass [Ch CHR ''/''])) (g, b @ CHR ''/'' # r'))"
    unfolding ms_Plus_iff by blast
  have c: "(g', r') \<in> set (ms (Atom (Lit CHR ''/'')) (g, CHR ''/'' # r'))"
    using r(1) by (simp add: ms_Atom_iff)
  from a b c show ?L unfolding ms_Seq_iff by blast
qed

lemma scopePart_iff:
  "(g', r') \<in> set (ms scopePart (g, s)) \<longleftrightarrow>
     (\<exists>x. isScope x \<and> s = x @ r' \<and> g' = g(''scope'' \<mapsto> x))"
  (is "?L \<longleftrightarrow> ?R")
proof
  assume ?L
  then obtain g'' p where "s = p @ r'" "g' = g''(''scope'' \<mapsto> p)"
    "g'' = g" "\<exists>b. b \<noteq> [] \<and> CHR ''/'' \<notin> set b \<and> s = CHR ''@'' # b @ CHR ''/'' # r'"
    unfolding scopePart_def ms_Group_iff scope_body by blast
  then show ?R unfolding isScope_iff by auto
next
  assume ?R
  then obtain b where "b \<noteq> []" "CHR ''/'' \<notin> set b" "s = (CHR ''@'' # b @ ''/'') @ r'"
     "g' = g(''scope'' \<mapsto> CHR ''@'' # b @ ''/'')"
    unfolding isScope_iff by blast
  then show ?L unfolding scopePart_def ms_Group_iff scope_body
    by (intro exI[of _ g] exI[of _ "CHR ''@'' # b @ ''/''"]) auto
qed

lemma namePart_iff:
  "(g', r') \<in> set (ms namePart (g, s)) \<longleftrightarrow>
     (\<exists>x. isName x \<and> s = x @ r' \<and> g' = g(''name'' \<mapsto> x))"
  (is "?L \<longleftrightarrow> ?R")
proof
  assume ?L
  then obtain g'' p q where "s = p @ r'" "g' = g''(''name'' \<mapsto> p)"
    "g'' = g" "q \<noteq> []" "s = q @ r'" "\<forall>c\<in>set q. atom_ok (NotClass [Ch CHR ''/'', Ch CHR ''@'']) c"
    unfolding namePart_def ms_Group_iff ms_Plus_iff by blast
  then show ?R unfolding isName_def by auto
next
  assume ?R
  then obtain x where x: "x \<noteq> []" "\<forall>c\<in>set x. c \<noteq> CHR ''/'' \<and> c \<noteq> CHR ''@''" "s = x @ r'"
     "g' = g(''name'' \<mapsto> x)"
    unfolding isName_def by blast
  then have "\<forall>c\<in>set x. atom_ok (NotClass [Ch CHR ''/'', Ch CHR ''@'']) c" by auto
  with x show ?L unfolding namePart_def ms_Group_iff ms_Plus_iff by blast
qed

lemma isScope_nonempty: "isScope x \<Longrightarrow> x \<noteq> []" by (auto simp: isScope_iff)
lemma isVersion_nonempty: "isVersion x \<Longrightarrow> x \<noteq> []" by (auto simp: isVersion_iff)
lemma isSubpath_nonempty: "isSubpath x \<Longrightarrow> x \<noteq> []" by (auto simp: isSubpath_iff)

lemma versionPart_iff:
  "(g', r') \<in> set (ms versionPart (g, s)) \<longleftrightarrow>
     (\<exists>x. isVersion x \<and> s = x @ r' \<and> g' = g(''version'' \<mapsto> x))"
  (is "?L \<longleftrightarrow> ?R")
proof
  assume ?L
  then obtain g'' p g1 r1 where gp: "s = p @ r'" "g' = g''(''version'' \<mapsto> p)"
    and a: "(g1, r1) \<in> set (ms (Atom (Lit CHR ''@'')) (g, s))"
    and b: "(g'', r') \<in> set (ms (Plus (NotClass [Ch CHR ''/''])) (g1, r1))"
    unfolding versionPart_def ms_Group_iff ms_Seq_iff by auto
  from a have a': "g1 = g" "s = CHR ''@'' # r1" by (auto simp: ms_Atom_iff)
  from b obtain q where b': "g'' = g1" "q \<noteq> []" "r1 = q @ r'" "\<forall>c\<in>set q. atom_ok (NotClass [Ch CHR ''/'']) c"
    unfolding ms_Plus_iff by blast
  from b'(4) have "CHR ''/'' \<notin> set q" by auto
  with gp a' b' have "isVersion (CHR ''@'' # q) \<and> s = (CHR ''@'' # q) @ r' \<and> g' = g(''version'' \<mapsto> CHR ''@'' # q)"
    unfolding isVersion_iff by auto
  then show ?R by blast
next
  assume ?R
  then obtain b where r: "b \<noteq> []" "CHR ''/'' \<notin> set b" "s = (CHR ''@'' # b) @ r'"
     "g' = g(''version'' \<mapsto> CHR ''@'' # b)"
    unfolding isVersion_iff by blast
  have a: "(g, b @ r') \<in> set (ms (Atom (Lit CHR ''@'')) (g, s))"
    using r(3) by (simp add: ms_Atom_iff)
  have "\<forall>c\<in>set b. atom_ok (NotClass [Ch CHR ''/'']) c" using r(2) by auto
  with r(1) have b: "(g, r') \<in> set (ms (Plus (NotClass [Ch CHR ''/''])) (g, b @ r'))"
    unfolding ms_Plus_iff by blast
  from a b have "(g, r') \<in> set (ms (Seq (Atom (Lit CHR ''@'')) (Plus (NotClass [Ch CHR ''/'']))) (g, s))"
    unfolding ms_Seq_iff by blast
  with r(3,4) show ?L unfolding versionPart_def ms_Group_iff by blast
qed

lemma subpathPart_iff:
  "(g', r') \<in> set (ms subpathPart (g, s)) \<longleftrightarrow>
     (\<exists>x. isSubpath x \<and> s = x @ r' \<and> g' = g(''subpath'' \<mapsto> x))"
  (is "?L \<longleftrightarrow> ?R")
proof
  assume ?L
  then obtain g'' p g1 r1 where gp: "s = p @ r'" "g' = g''(''subpath'' \<mapsto> p)"
    and a: "(g1, r1) \<in> set (ms (Atom (Lit CHR ''/'')) (g, s))"
    and b: "(g'', r') \<in> set (ms (Plus Dot) (g1, r1))"
    unfolding subpathPart_def ms_Group_iff ms_Seq_iff by auto
  from a have a': "g1 = g" "s = CHR ''/'' # r1" by (auto simp: ms_Atom_iff)
  from b obtain q where b': "g'' = g1" "q \<noteq> []" "r1 = q @ r'" "\<forall>c\<in>set q. atom_ok Dot c"
    unfolding ms_Plus_iff by blast
  from b'(4) have "\<forall>c\<in>set q. c \<notin> set lineTerminators" by auto
  with gp a' b' have "isSubpath (CHR ''/'' # q) \<and> s = (CHR ''/'' # q) @ r' \<and> g' = g(''subpath'' \<mapsto> CHR ''/'' # q)"
    unfolding isSubpath_iff by auto
  then show ?R by blast
next
  assume ?R
  then obtain b where r: "b \<noteq> []" "\<forall>c\<in>set b. c \<notin> set lineTerminators" "s = (CHR ''/'' # b) @ r'"
     "g' = g(''subpath'' \<mapsto> CHR ''/'' # b)"
    unfolding isSubpath_iff by blast
  have a: "(g, b @ r') \<in> set (ms (Atom (Lit CHR ''/'')) (g, s))"
    using r(3) by (simp add: ms_Atom_iff)
  have "\<forall>c\<in>set b. atom_ok Dot c" using r(2) by auto
  with r(1) have b: "(g, r') \<in> set (ms (Plus Dot) (g, b @ r'))"
    unfolding ms_Plus_iff by blast
  from a b have "(g, r') \<in> set (ms (Seq (Atom (Lit CHR ''/'')) (Plus Dot)) (g, s))"
    unfolding ms_Seq_iff by blast
  with r(3,4) show ?L unfolding subpathPart_def ms_Group_iff by blast
qed

lemma opt_scope_iff:
  "(g', r') \<in> set (ms (Opt scopePart) (g, s)) \<longleftrightarrow>
     (\<exists>x. (x = [] \<or> isScope x) \<and> s = x @ r' \<and> g' = optGroup ''scope'' x g)"
  unfolding ms_Opt_iff scopePart_iff optGroup_def
  by (auto dest: isScope_nonempty)

lemma opt_version_iff:
  "(g', r') \<in> set (ms (Opt versionPart) (g, s)) \<longleftrightarrow>
     (\<exists>x. (x = [] \<or> isVersion x) \<and> s = x @ r' \<and> g' = optGroup ''version'' x g)"
  unfolding ms_Opt_iff versionPart_iff optGroup_def
  by (auto dest: isVersion_nonempty)

lemma opt_subpath_iff:
  "(g', r') \<in> set (ms (Opt subpathPart) (g, s)) \<longleftrightarrow>
     (\<exists>x. (x = [] \<or> isSubpath x) \<and> s = x @ r' \<and> g' = optGroup ''subpath'' x g)"
  unfolding ms_Opt_iff subpathPart_iff optGroup_def
  by (auto dest: isSubpath_nonempty)

lemma install_body_iff:
  "(g', r') \<in> set (ms (Seq (Opt scopePart) (Seq namePart (Opt versionPart))) (g, s)) \<longleftrightarrow>
     (\<exists>sc nm ver. (sc = [] \<or> isScope sc) \<and> isName nm \<and> (ver = [] \<or> isVersion ver) \<and>
        s = sc @ nm @ ver @ r' \<and>
        g' = optGroup ''version'' ver ((optGroup ''scope'' sc g)(''name'' \<mapsto> nm)))"
  (is "?L \<longleftrightarrow> ?R")
proof
  assume ?L
  then obtain g1 r1 g2 r2 where
    a: "(g1, r1) \<in> set (ms (Opt scopePart) (g, s))" and
    b: "(g2, r2) \<in> set (ms namePart (g1, r1))" and
    c: "(g', r') \<in> set (ms (Opt versionPart) (g2, r2))"
    unfolding ms_Seq_iff by auto
  from a obtain sc where sc: "sc = [] \<or> isScope sc" "s = sc @ r1" "g1 = optGroup ''scope'' sc g"
    unfolding opt_scope_iff by blast
  from b obtain nm where nm: "isName nm" "r1 = nm @ r2" "g2 = g1(''name'' \<mapsto> nm)"
    unfolding namePart_iff by blast
  from c obtain ver where ver: "ver = [] \<or> isVersion ver" "r2 = ver @ r'" "g' = optGroup ''version'' ver g2"
    unfolding opt_version_iff by blast
  from sc nm ver show ?R by auto
next
  assume ?R
  then obtain sc nm ver where r: "sc = [] \<or> isScope sc" "isName nm" "ver = [] \<or> isVersion ver"
     "s = sc @ nm @ ver @ r'" "g' = optGroup ''version'' ver ((optGroup ''scope'' sc g)(''name'' \<mapsto> nm))"
    by blast
  have a: "(optGroup ''scope'' sc g, nm @ ver @ r') \<in> set (ms (Opt scopePart) (g, s))"
    unfolding opt_scope_iff using r(1,4) by blast
  have b: "((optGroup ''scope'' sc g)(''name'' \<mapsto> nm), ver @ r') \<in> set (ms namePart (optGroup ''scope'' sc g, nm @ ver @ r'))"
    unfolding namePart_iff using r(2) by blast
  have c: "(g', r') \<in> set (ms (Opt versionPart) ((optGroup ''scope'' sc g)(''name'' \<mapsto> nm), ver @ r'))"
    unfolding opt_version_iff using r(3,5) by blast
  from a b c show ?L unfolding ms_Seq_iff by blast
qed

lemma packageSpecPattern_iff:
  "(g', r') \<in> set (ms packageSpecPattern (g, s)) \<longleftrightarrow>
     (\<exists>sc nm ver sub. specParts sc nm ver sub \<and> s = sc @ nm @ ver @ sub @ r' \<and>
        g' = specGroups sc nm ver sub g)"
  (is "?L \<longleftrightarrow> ?R")
proof
  assume ?L
  then obtain g1 r1 where
    a: "(g1, r1) \<in> set (ms (Group ''install'' (Seq (Opt scopePart) (Seq namePart (Opt versionPart)))) (g, s))" and
    b: "(g', r') \<in> set (ms (Opt subpathPart) (g1, r1))"
    unfolding packageSpecPattern_def ms_Seq_iff by (auto simp del: ms.simps)
  from a obtain g0 p sc nm ver where i: "s = p @ r1" "g1 = g0(''install'' \<mapsto> p)"
     "sc = [] \<or> isScope sc" "isName nm" "ver = [] \<or> isVersion ver"
     "s = sc @ nm @ ver @ r1" "g0 = optGroup ''version'' ver ((optGroup ''scope'' sc g)(''name'' \<mapsto> nm))"
    unfolding ms_Group_iff install_body_iff by blast
  from b obtain sub where sub: "sub = [] \<or> isSubpath sub" "r1 = sub @ r'" "g' = optGroup ''subpath'' sub g1"
    unfolding opt_subpath_iff by blast
  from i(1,6) have "p = sc @ nm @ ver" by simp
  with i sub have "specParts sc nm ver sub \<and> s = sc @ nm @ ver @ sub @ r' \<and> g' = specGroups sc nm ver sub g"
    unfolding specParts_def specGroups_def by simp
  then show ?R by blast
next
  assume ?R
  then obtain sc nm ver sub where r: "specParts sc nm ver sub" "s = sc @ nm @ ver @ sub @ r'"
     "g' = specGroups sc nm ver sub g"
    by blast
  let ?g0 = "optGroup ''version'' ver ((optGroup ''scope'' sc g)(''name'' \<mapsto> nm))"
  have "(?g0, sub @ r') \<in> set (ms (Seq (Opt scopePart) (Seq namePart (Opt versionPart))) (g, s))"
    unfolding install_body_iff using r(1,2) unfolding specParts_def by blast
  moreover have "s = (sc @ nm @ ver) @ sub @ r'" using r(2) by simp
  ultimately have a: "(?g0(''install'' \<mapsto> sc @ nm @ ver), sub @ r') \<in>
      set (ms (Group ''install'' (Seq (Opt scopePart) (Seq namePart (Opt versionPart)))) (g, s))"
    unfolding ms_Group_iff by blast
  have b: "(g', r') \<in> set (ms (Opt subpathPart) (?g0(''install'' \<mapsto> sc @ nm @ ver), sub @ r'))"
    unfolding opt_subpath_iff using r(1,3) unfolding specParts_def specGroups_def by blast
  from a b show ?L unfolding packageSpecPattern_def ms_Seq_iff by blast
qed

lemma regexExec_Some: "regexExec r s = Some g \<Longrightarrow> (g, []) \<in> set (ms r (Map.empty, s))"
proof -
  assume "regexExec r s = Some g"
  then obtain st where st: "find atEnd (ms r (Map.empty, s)) = Some st" "fst st = g"
    unfolding regexExec_def by auto
  from st(1) have "atEnd st" "st \<in> set (ms r (Map.empty, s))"
    by (auto simp: find_Some_iff)
  with st(2) show ?thesis unfolding atEnd_def by (cases st) auto
qed

lemma regexExec_None_iff:
  "regexExec r s = None \<longleftrightarrow> (\<forall>g. (g, []) \<notin> set (ms r (Map.empty, s)))"
  unfolding regexExec_def atEnd_def by (auto simp: find_None_iff)

lemma run_unique:
  assumes "\<forall>c\<in>set p. P c" "\<forall>c\<in>set p'. P c"
    and "r = [] \<or> \<not> P (hd r)" "r' = [] \<or> \<not> P (hd r')"
    and "p @ r = p' @ r'"
  shows "p = p' \<and> r = r'"
proof -
  have "takeWhile P r = []" using assms(3) by (cases r) auto
  with assms(1) have 1: "takeWhile P (p @ r) = p" by (simp add: takeWhile_append2)
  have "takeWhile P r' = []" using assms(4) by (cases r') auto
  with assms(2) have 2: "takeWhile P (p' @ r') = p'" by (simp add: takeWhile_append2)
  from 1 2 assms(5) have "p = p'" by simp
  with assms(5) show ?thesis by simp
qed

lemma specParts_unique:
  assumes a: "specParts sc nm ver sub" and b: "specParts sc' nm' ver' sub'"
    and eq: "sc @ nm @ ver @ sub = sc' @ nm' @ ver' @ sub'"
  shows "sc = sc' \<and> nm = nm' \<and> ver = ver' \<and> sub = sub'"
proof -
  from a have nm: "nm \<noteq> []" "hd nm \<noteq> CHR ''@''" "\<forall>c\<in>set nm. c \<noteq> CHR ''/'' \<and> c \<noteq> CHR ''@''"
    unfolding specParts_def isName_def by (auto simp: hd_in_set)
  from b have nm': "nm' \<noteq> []" "hd nm' \<noteq> CHR ''@''" "\<forall>c\<in>set nm'. c \<noteq> CHR ''/'' \<and> c \<noteq> CHR ''@''"
    unfolding specParts_def isName_def by (auto simp: hd_in_set)
  from a have verc: "ver = [] \<or> (\<exists>v. v \<noteq> [] \<and> CHR ''/'' \<notin> set v \<and> ver = CHR ''@'' # v)"
    unfolding specParts_def isVersion_iff by blast
  from b have verc': "ver' = [] \<or> (\<exists>v. v \<noteq> [] \<and> CHR ''/'' \<notin> set v \<and> ver' = CHR ''@'' # v)"
    unfolding specParts_def isVersion_iff by blast
  from a have subc: "sub = [] \<or> hd sub = CHR ''/''"
    unfolding specParts_def isSubpath_iff by auto
  from b have subc': "sub' = [] \<or> hd sub' = CHR ''/''"
    unfolding specParts_def isSubpath_iff by auto
  \<comment> \<open>the scope\<close>
  have sc: "sc = sc' \<and> nm @ ver @ sub = nm' @ ver' @ sub'"
  proof -
    from a have "sc = [] \<or> isScope sc" unfolding specParts_def by simp
    moreover from b have "sc' = [] \<or> isScope sc'" unfolding specParts_def by simp
    ultimately consider "sc = []" "sc' = []" | "sc = []" "isScope sc'" | "isScope sc" "sc' = []"
      | "isScope sc" "isScope sc'" by blast
    then show ?thesis
    proof cases
      case 1
      with eq show ?thesis by simp
    next
      case 2
      then have "hd (sc' @ nm' @ ver' @ sub') = CHR ''@''" unfolding isScope_iff by auto
      moreover from 2 nm have "hd (sc @ nm @ ver @ sub) \<noteq> CHR ''@''" by simp
      ultimately show ?thesis using eq by simp
    next
      case 3
      then have "hd (sc @ nm @ ver @ sub) = CHR ''@''" unfolding isScope_iff by auto
      moreover from 3 nm' have "hd (sc' @ nm' @ ver' @ sub') \<noteq> CHR ''@''" by simp
      ultimately show ?thesis using eq by simp
    next
      case 4
      then obtain x y where x: "x \<noteq> []" "CHR ''/'' \<notin> set x" "sc = CHR ''@'' # x @ ''/''"
        and y: "y \<noteq> []" "CHR ''/'' \<notin> set y" "sc' = CHR ''@'' # y @ ''/''"
        unfolding isScope_iff by blast
      from eq x(3) y(3) have e: "x @ (CHR ''/'' # nm @ ver @ sub) = y @ (CHR ''/'' # nm' @ ver' @ sub')"
        by simp
      have "x = y \<and> CHR ''/'' # nm @ ver @ sub = CHR ''/'' # nm' @ ver' @ sub'"
        by (rule run_unique[where P = "\<lambda>c. c \<noteq> CHR ''/''", OF _ _ _ _ e]) (use x(2) y(2) in auto)
      with x(3) y(3) show ?thesis by simp
    qed
  qed
  \<comment> \<open>the name\<close>
  have r1: "ver @ sub = [] \<or> \<not> (hd (ver @ sub) \<noteq> CHR ''/'' \<and> hd (ver @ sub) \<noteq> CHR ''@'')"
    using verc subc by auto
  have r1': "ver' @ sub' = [] \<or> \<not> (hd (ver' @ sub') \<noteq> CHR ''/'' \<and> hd (ver' @ sub') \<noteq> CHR ''@'')"
    using verc' subc' by auto
  from sc have e2: "nm @ (ver @ sub) = nm' @ (ver' @ sub')" by simp
  have n: "nm = nm' \<and> ver @ sub = ver' @ sub'"
    by (rule run_unique[where P = "\<lambda>c. c \<noteq> CHR ''/'' \<and> c \<noteq> CHR ''@''", OF nm(3) nm'(3) r1 r1' e2])
  \<comment> \<open>the version\<close>
  have v: "ver = ver' \<and> sub = sub'"
  proof -
    from verc verc' consider "ver = []" "ver' = []"
      | v where "ver = []" "v \<noteq> []" "ver' = CHR ''@'' # v"
      | v where "ver' = []" "v \<noteq> []" "ver = CHR ''@'' # v"
      | v v' where "CHR ''/'' \<notin> set v" "ver = CHR ''@'' # v" "CHR ''/'' \<notin> set v'" "ver' = CHR ''@'' # v'"
      by blast
    then show ?thesis
    proof cases
      case 1
      with n show ?thesis by simp
    next
      case 2
      with n have "sub = CHR ''@'' # v @ sub'" by simp
      with subc show ?thesis by auto
    next
      case 3
      with n have "sub' = CHR ''@'' # v @ sub" by simp
      with subc' show ?thesis by auto
    next
      case 4
      with n have e3: "v @ sub = v' @ sub'" by simp
      have "v = v' \<and> sub = sub'"
        by (rule run_unique[where P = "\<lambda>c. c \<noteq> CHR ''/''", OF _ _ _ _ e3])
           (use 4 subc subc' in auto)
      with 4 show ?thesis by simp
    qed
  qed
  from sc n v show ?thesis by simp
qed

lemma specGroups_fields:
  "groupOrEmpty (Some (specGroups sc nm ver sub Map.empty)) ''install'' = sc @ nm @ ver"
  "groupOrEmpty (Some (specGroups sc nm ver sub Map.empty)) ''scope'' = sc"
  "groupOrEmpty (Some (specGroups sc nm ver sub Map.empty)) ''name'' = nm"
  "groupOrEmpty (Some (specGroups sc nm ver sub Map.empty)) ''version'' = ver"
  "groupOrEmpty (Some (specGroups sc nm ver sub Map.empty)) ''subpath'' = sub"
  by (simp_all add: groupOrEmpty_def specGroups_def optGroup_def)

lemma parsePackageSpec_parts:
  assumes "specParts sc nm ver sub"
  shows "parsePackageSpec (sc @ nm @ ver @ sub) =
           \<lparr> install = sc @ nm @ ver, scope = sc, name = nm, version = ver, subpath = sub \<rparr>"
proof -
  let ?s = "sc @ nm @ ver @ sub"
  from assms have "(specGroups sc nm ver sub Map.empty, []) \<in> set (ms packageSpecPattern (Map.empty, ?s))"
    unfolding packageSpecPattern_iff by auto
  then have "regexExec packageSpecPattern ?s \<noteq> None"
    unfolding regexExec_None_iff by blast
  then obtain g where g: "regexExec packageSpecPattern ?s = Some g" by blast
  from regexExec_Some[OF g] obtain sc' nm' ver' sub' where
    d: "specParts sc' nm' ver' sub'" "?s = sc' @ nm' @ ver' @ sub'" "g = specGroups sc' nm' ver' sub' Map.empty"
    unfolding packageSpecPattern_iff by auto
  from specParts_unique[OF assms d(1) d(2)] d(3)
  have "g = specGroups sc nm ver sub Map.empty" by simp
  with g show ?thesis
    unfolding parsePackageSpec_def by (simp add: specGroups_fields)
qed

lemma parsePackageSpec_matched:
  assumes "regexTest packageSpecPattern s"
  shows "\<exists>sc nm ver sub. specParts sc nm ver sub \<and> s = sc @ nm @ ver @ sub \<and>
           parsePackageSpec s =
             \<lparr> install = sc @ nm @ ver, scope = sc, name = nm, version = ver, subpath = sub \<rparr>"
proof -
  from assms obtain g where g: "regexExec packageSpecPattern s = Some g"
    unfolding regexTest_def by blast
  from regexExec_Some[OF g] obtain sc nm ver sub where
    d: "specParts sc nm ver sub" "s = sc @ nm @ ver @ sub" "g = specGroups sc nm ver sub Map.empty"
    unfolding packageSpecPattern_iff by auto
  from g d(3) have "parsePackageSpec s =
             \<lparr> install = sc @ nm @ ver, scope = sc, name = nm, version = ver, subpath = sub \<rparr>"
    unfolding parsePackageSpec_def by (simp add: specGroups_fields)
  with d show ?thesis by blast
qed

lemma regexTest_packageSpecPattern_iff:
  "regexTest packageSpecPattern s \<longleftrightarrow> (\<exists>sc nm ver sub. specParts sc nm ver sub \<and> s = sc @ nm @ ver @ sub)"
  unfolding regexTest_def regexExec_None_iff packageSpecPattern_iff by auto

lemma parsePackageSpec_unmatched:
  assumes "\<not> regexTest packageSpecPattern s"
  shows "parsePackageSpec s = \<lparr> install = [], scope = [], name = [], version = [], subpath = [] \<rparr>"
  using assms unfolding regexTest_def parsePackageSpec_def by (simp add: groupOrEmpty_def)

lemma not_matched_empty: "\<not> regexTest packageSpecPattern []"
  unfolding regexTest_packageSpecPattern_iff specParts_def isName_def by auto

lemma not_matched_slash: "\<not> regexTest packageSpecPattern (CHR ''/'' # t)"
proof
  assume "regexTest packageSpecPattern (CHR ''/'' # t)"
  then obtain sc nm ver sub where p: "specParts sc nm ver sub" "CHR ''/'' # t = sc @ nm @ ver @ sub"
    unfolding regexTest_packageSpecPattern_iff by blast
  from p(1) have nm: "nm \<noteq> []" "hd nm \<noteq> CHR ''/''"
    unfolding specParts_def isName_def by (auto simp: hd_in_set)
  from p(1) consider "sc = []" | "isScope sc" unfolding specParts_def by blast
  then show False
  proof cases
    case 1
    with p(2) nm have "hd (CHR ''/'' # t) = hd nm" by simp
    with nm show False by simp
  next
    case 2
    then have "hd (sc @ nm @ ver @ sub) = CHR ''@''" unfolding isScope_iff by auto
    with p(2) have "hd (CHR ''/'' # t) = CHR ''@''" by simp
    then show False by simp
  qed
qed

subsection \<open>The identifier pattern\<close>

lemma start_class:
  "atom_ok (Class [Rng CHR ''a'' CHR ''z'', Rng CHR ''A'' CHR ''Z'', Ch CHR ''_'', Ch CHR ''$'']) c
     \<longleftrightarrow> asciiIdentifierStart c"
  by (auto simp: asciiIdentifierStart_def isLetter_def)

lemma part_class:
  "atom_ok (Class [Rng CHR ''a'' CHR ''z'', Rng CHR ''A'' CHR ''Z'', Rng CHR ''0'' CHR ''9'',
                   Ch CHR ''_'', Ch CHR ''$'']) c
     \<longleftrightarrow> asciiIdentifierPart c"
  by (auto simp: asciiIdentifierPart_def asciiIdentifierStart_def isLetter_def isDigit_def)

lemma regexTest_identifierPattern: "regexTest identifierPattern n \<longleftrightarrow> isAsciiIdentifier n"
proof
  assume "regexTest identifierPattern n"
  then obtain g where "regexExec identifierPattern n = Some g" unfolding regexTest_def by blast
  from regexExec_Some[OF this] obtain g1 r1 where
    a: "(g1, r1) \<in> set (ms (Atom (Class [Rng CHR ''a'' CHR ''z'', Rng CHR ''A'' CHR ''Z'', Ch CHR ''_'', Ch CHR ''$''])) (Map.empty, n))"
    and b: "(g, []) \<in> set (ms (Star (Class [Rng CHR ''a'' CHR ''z'', Rng CHR ''A'' CHR ''Z'',
                       Rng CHR ''0'' CHR ''9'', Ch CHR ''_'', Ch CHR ''$''])) (g1, r1))"
    unfolding identifierPattern_def ms_Seq_iff by (auto simp del: ms.simps)
  from a have a': "asciiIdentifierStart (hd n)" "n = hd n # r1"
    unfolding ms_Atom_iff start_class by auto
  from b have "\<forall>c\<in>set r1. asciiIdentifierPart c"
    unfolding ms_Star_iff part_class by auto
  with a' show "isAsciiIdentifier n" unfolding isAsciiIdentifier_def by (cases n) auto
next
  assume "isAsciiIdentifier n"
  then obtain c cs where n: "n = c # cs" "asciiIdentifierStart c" "\<forall>d\<in>set cs. asciiIdentifierPart d"
    unfolding isAsciiIdentifier_def by (cases n) auto
  have a: "(Map.empty, cs) \<in> set (ms (Atom (Class [Rng CHR ''a'' CHR ''z'', Rng CHR ''A'' CHR ''Z'', Ch CHR ''_'', Ch CHR ''$''])) (Map.empty, n))"
    unfolding ms_Atom_iff start_class using n by simp
  have b: "(Map.empty, []) \<in> set (ms (Star (Class [Rng CHR ''a'' CHR ''z'', Rng CHR ''A'' CHR ''Z'',
                       Rng CHR ''0'' CHR ''9'', Ch CHR ''_'', Ch CHR ''$''])) (Map.empty, cs))"
    unfolding ms_Star_iff part_class using n by simp
  from a b have "(Map.empty, []) \<in> set (ms identifierPattern (Map.empty, n))"
    unfolding identifierPattern_def ms_Seq_iff by blast
  then show "regexTest identifierPattern n"
    unfolding regexTest_def regexExec_None_iff by blast
qed

subsection \<open>The validator\<close>

lemma checkEach_Inr_iff:
  "checkEach e pkgs = Inr () \<longleftrightarrow>
     (\<forall>p\<in>set pkgs. isValidJsVariableName (alias p)
        \<and> \<not> hasErrors (validateNpmPackageName e (scope p @ name p)))"
  by (induction pkgs) auto

lemma checkEach_cases: "(\<exists>err. checkEach e pkgs = Inl err) \<or> checkEach e pkgs = Inr ()"
  by (cases "checkEach e pkgs") auto

lemma length_card_distinct: "length xs \<noteq> card (set xs) \<longleftrightarrow> \<not> distinct xs"
  using card_distinct[of xs] distinct_card[of xs] by auto

lemma validatePackageNames_Inr_iff:
  "validatePackageNames e new inst = Inr () \<longleftrightarrow>
     checkEach e new = Inr () \<and> distinct (map alias new @ map alias inst)"
  unfolding validatePackageNames_def Let_def length_card_distinct
  by (cases "checkEach e new") auto

lemma validatePackageNames_cases:
  "(\<exists>err. validatePackageNames e new inst = Inl err) \<or> validatePackageNames e new inst = Inr ()"
  by (cases "validatePackageNames e new inst") auto

lemma isValidJsVariableName_identifier:
  "isValidJsVariableName n \<longleftrightarrow> isAsciiIdentifier n \<and> n \<notin> set JS_RESERVED_WORDS"
  unfolding isValidJsVariableName_def regexTest_identifierPattern by auto




subsection \<open>Tokens\<close>

lemma split_nonempty: "split sep s \<noteq> []"
  by (induction s) auto

lemma split_length: "length (split sep s) = Suc (length (filter (\<lambda>c. c = sep) s))"
proof (induction s)
  case Nil
  then show ?case by simp
next
  case (Cons c cs)
  have "length (tl (split sep cs)) = length (split sep cs) - 1" by simp
  with Cons split_nonempty[of sep cs] show ?case by (auto simp: Suc_diff_le)
qed

lemma split_has_second: "sep \<in> set s \<Longrightarrow> 1 < length (split sep s)"
proof -
  assume "sep \<in> set s"
  then have "filter (\<lambda>c. c = sep) s \<noteq> []" by (auto simp: filter_empty_conv)
  then show ?thesis unfolding split_length by (cases "filter (\<lambda>c. c = sep) s") auto
qed

lemma split_hd: "hd (split sep s) = takeWhile (\<lambda>c. c \<noteq> sep) s"
  by (induction s) auto

lemma split_tl:
  "tl (split sep s) =
     (case dropWhile (\<lambda>c. c \<noteq> sep) s of [] \<Rightarrow> [] | x # r \<Rightarrow> split sep r)"
  by (induction s) auto

lemma split_first: "split sep s ! 0 = takeWhile (\<lambda>c. c \<noteq> sep) s"
  using split_nonempty[of sep s] split_hd[of sep s] by (simp add: hd_conv_nth)

lemma split_second:
  assumes "sep \<in> set s"
  shows "split sep s ! 1 = takeWhile (\<lambda>c. c \<noteq> sep) (drop 1 (dropWhile (\<lambda>c. c \<noteq> sep) s))"
proof -
  from assms obtain x r where d: "dropWhile (\<lambda>c. c \<noteq> sep) s = x # r"
    by (cases "dropWhile (\<lambda>c. c \<noteq> sep) s") (auto simp: dropWhile_eq_Nil_conv)
  with split_tl[of sep s] have t: "tl (split sep s) = split sep r" by simp
  have "split sep s ! 1 = tl (split sep s) ! 0"
    using split_nonempty[of sep s] by (cases "split sep s") auto
  also have "\<dots> = takeWhile (\<lambda>c. c \<noteq> sep) r" unfolding t by (rule split_first)
  finally show ?thesis using d by simp
qed

lemma packageFromArg_aliased:
  assumes "CHR ''='' \<in> set arg"
  shows "alias (packageFromArg arg) = takeWhile (\<lambda>c. c \<noteq> CHR ''='') arg"
    and "spec (packageFromArg arg) =
           takeWhile (\<lambda>c. c \<noteq> CHR ''='') (drop 1 (dropWhile (\<lambda>c. c \<noteq> CHR ''='') arg))"
  using assms unfolding packageFromArg_def stringIncludes_def
  by (simp_all add: Let_def split_first split_second del: One_nat_def)

lemma getPackagesToInstallFromArgv_each:
  "length (getPackagesToInstallFromArgv argv) = length argv"
  "i < length argv \<Longrightarrow> getPackagesToInstallFromArgv argv ! i = packageFromArg (argv ! i)"
  unfolding getPackagesToInstallFromArgv_def by simp_all

lemma lodash_tokens:
  "getPackagesToInstallFromArgv [''lodash@3.0.0'', ''lodash@4.0.0''] =
     [\<lparr> install = ''lodash@3.0.0'', scope = [], name = ''lodash'', version = ''@3.0.0'',
        subpath = [], spec = ''lodash@3.0.0'', alias = ''lodash'' \<rparr>,
      \<lparr> install = ''lodash@4.0.0'', scope = [], name = ''lodash'', version = ''@4.0.0'',
        subpath = [], spec = ''lodash@4.0.0'', alias = ''lodash'' \<rparr>]"
  "getPackagesToInstallFromArgv [''l1=lodash@3.0.0'', ''l2=lodash@3.0.0''] =
     [\<lparr> install = ''lodash@3.0.0'', scope = [], name = ''lodash'', version = ''@3.0.0'',
        subpath = [], spec = ''lodash@3.0.0'', alias = ''l1'' \<rparr>,
      \<lparr> install = ''lodash@3.0.0'', scope = [], name = ''lodash'', version = ''@3.0.0'',
        subpath = [], spec = ''lodash@3.0.0'', alias = ''l2'' \<rparr>]"
  by code_simp+

lemma lodash_aliases_valid:
  "isValidJsVariableName ''lodash''" "isValidJsVariableName ''l1''" "isValidJsVariableName ''l2''"
  by code_simp+

subsection \<open>Installation and the session\<close>

lemma installPackage_alias:
  "installPackage e p path w = (Inr x, w') \<Longrightarrow> alias x = alias p"
  unfolding installPackage_def by (auto simp: Let_def split: if_splits)

lemma startAll_alias:
  "startAll e pkgs path w = (rs, w') \<Longrightarrow> promiseAll rs = Inr xs \<Longrightarrow> map alias xs = map alias pkgs"
proof (induction pkgs arbitrary: w w' rs xs)
  case Nil
  then show ?case by auto
next
  case (Cons p pkgs)
  obtain r w1 where r: "installPackage e p path w = (r, w1)" by (cases "installPackage e p path w")
  obtain rs1 w2 where rs1: "startAll e pkgs path w1 = (rs1, w2)" by (cases "startAll e pkgs path w1")
  from Cons.prems(1) r rs1 have rs: "rs = r # rs1" by simp
  with Cons.prems(2) obtain x xs1 where x: "r = Inr x" "promiseAll rs1 = Inr xs1" "xs = x # xs1"
    by (cases r; cases "promiseAll rs1") auto
  from Cons.IH[OF rs1 x(2)] installPackage_alias[of e p path w x w1] r x show ?case by simp
qed

lemma installPackages_alias:
  "installPackages e pkgs path w = (Inr xs, w') \<Longrightarrow> map alias xs = map alias pkgs"
  unfolding installPackages_def
  by (cases "startAll e pkgs path w") (auto dest: startAll_alias)

lemma promiseAll_Inl: "Inl err \<in> set rs \<Longrightarrow> \<exists>err'. promiseAll rs = Inl err'"
proof (induction rs)
  case Nil
  then show ?case by simp
next
  case (Cons r rs)
  then show ?case by (cases r; cases "promiseAll rs") auto
qed

lemma promiseAll_Inr: "promiseAll rs = Inr xs \<Longrightarrow> rs = map Inr xs"
proof (induction rs arbitrary: xs)
  case Nil
  then show ?case by simp
next
  case (Cons r rs)
  then show ?case by (cases r; cases "promiseAll rs") auto
qed

lemma sum_cases_pair:
  obtains err w1 where "(p :: ('a + 'b) \<times> 'c) = (Inl err, w1)" | x w1 where "p = (Inr x, w1)"
  by (cases p; cases "fst p") auto

lemma import_validation_failed:
  assumes "validatePackageNames e (getPackagesToInstallFromArgv (stringArgv e args)) (installedPackages s) = Inl err"
  shows "importAdditionalPackagesViaCommand e args (s, w) = (Some err, s, w)"
  using assms unfolding importAdditionalPackagesViaCommand_def by (simp add: Let_def)

lemma import_install_failed:
  assumes "validatePackageNames e (getPackagesToInstallFromArgv (stringArgv e args)) (installedPackages s) = Inr ()"
    and "installPackages e (getPackagesToInstallFromArgv (stringArgv e args)) (installPath s) w = (Inl err, w1)"
  shows "importAdditionalPackagesViaCommand e args (s, w) = (Some err, s, w1)"
  using assms unfolding importAdditionalPackagesViaCommand_def by (simp add: Let_def)

lemma import_installed:
  assumes "validatePackageNames e (getPackagesToInstallFromArgv (stringArgv e args)) (installedPackages s) = Inr ()"
    and "installPackages e (getPackagesToInstallFromArgv (stringArgv e args)) (installPath s) w = (Inr newly, w1)"
  shows "installedPackages (fst (snd (importAdditionalPackagesViaCommand e args (s, w))))
           = installedPackages s @ newly"
  using assms unfolding importAdditionalPackagesViaCommand_def
  by (simp add: Let_def split: prod.splits)

lemma import_list_cases:
  "installedPackages (fst (snd (importAdditionalPackagesViaCommand e args (s, w)))) = installedPackages s
   \<or> (\<exists>newly w1.
        validatePackageNames e (getPackagesToInstallFromArgv (stringArgv e args)) (installedPackages s) = Inr ()
        \<and> installPackages e (getPackagesToInstallFromArgv (stringArgv e args)) (installPath s) w = (Inr newly, w1)
        \<and> installedPackages (fst (snd (importAdditionalPackagesViaCommand e args (s, w))))
            = installedPackages s @ newly)"
proof -
  let ?new = "getPackagesToInstallFromArgv (stringArgv e args)"
  from validatePackageNames_cases[of e ?new "installedPackages s"]
  consider err where "validatePackageNames e ?new (installedPackages s) = Inl err"
    | "validatePackageNames e ?new (installedPackages s) = Inr ()" by blast
  then show ?thesis
  proof cases
    case 1
    from import_validation_failed[OF 1] show ?thesis by simp
  next
    case 2
    show ?thesis
    proof (cases "installPackages e ?new (installPath s) w" rule: sum_cases_pair)
      case (1 err w1)
      from import_install_failed[OF 2 1] show ?thesis by simp
    next
      case (2 x w1)
      from import_installed[OF \<open>validatePackageNames e ?new (installedPackages s) = Inr ()\<close> 2]
        \<open>validatePackageNames e ?new (installedPackages s) = Inr ()\<close> 2
      show ?thesis by blast
    qed
  qed
qed

lemma import_distinct:
  assumes "distinct (map alias (installedPackages s))"
  shows "distinct (map alias (installedPackages (fst (snd (importAdditionalPackagesViaCommand e args (s, w))))))"
proof -
  from import_list_cases[of e args s w]
  consider "installedPackages (fst (snd (importAdditionalPackagesViaCommand e args (s, w)))) = installedPackages s"
    | newly w1 where
        "validatePackageNames e (getPackagesToInstallFromArgv (stringArgv e args)) (installedPackages s) = Inr ()"
        "installPackages e (getPackagesToInstallFromArgv (stringArgv e args)) (installPath s) w = (Inr newly, w1)"
        "installedPackages (fst (snd (importAdditionalPackagesViaCommand e args (s, w))))
            = installedPackages s @ newly"
    by blast
  then show ?thesis
  proof cases
    case 1
    with assms show ?thesis by simp
  next
    case 2
    from 2(1) have "distinct (map alias (getPackagesToInstallFromArgv (stringArgv e args)) @ map alias (installedPackages s))"
      unfolding validatePackageNames_Inr_iff by simp
    with installPackages_alias[OF 2(2)]
    have "distinct (map alias newly @ map alias (installedPackages s))" by simp
    then have "distinct (map alias (installedPackages s) @ map alias newly)" by auto
    with 2(3) show ?thesis by simp
  qed
qed

lemma main_Inr:
  assumes "main e tmpdir argv w = (Inr s0, w1)"
  shows "\<exists>path w0 w2. createInstallationDirectory e tmpdir w = (Inr path, w0)
          \<and> validatePackageNames e (getPackagesToInstallFromArgv argv) [] = Inr ()
          \<and> installPackages e (getPackagesToInstallFromArgv argv) path w0 = (Inr (installedPackages s0), w2)"
  using assms unfolding main_def
  by (auto simp: Let_def split: prod.splits sum.splits option.splits)

lemma main_distinct:
  assumes "main e tmpdir argv w = (Inr s0, w1)"
  shows "distinct (map alias (installedPackages s0))"
proof -
  from main_Inr[OF assms] obtain path w0 w2 where
    v: "validatePackageNames e (getPackagesToInstallFromArgv argv) [] = Inr ()"
    and i: "installPackages e (getPackagesToInstallFromArgv argv) path w0 = (Inr (installedPackages s0), w2)"
    by blast
  from v have "distinct (map alias (getPackagesToInstallFromArgv argv))"
    unfolding validatePackageNames_Inr_iff by simp
  with installPackages_alias[OF i] show ?thesis by simp
qed

lemma sampleStart_ok: "sampleStart = (Inr sampleSession, snd sampleStart)"
proof -
  have "\<not> isl (fst sampleStart)" by code_simp
  then show ?thesis unfolding sampleSession_def by (cases sampleStart) auto
qed

lemma createInstallationDirectory_Inr:
  assumes "createInstallationDirectory e tmpdir w = (Inr path, w1)"
  shows "w1 = w\<lparr>fs := (fs w)(path \<mapsto> [])\<rparr>"
  using assms unfolding createInstallationDirectory_def
  by (auto simp: Let_def split: option.splits)

lemma main_validation_failed:
  assumes "createInstallationDirectory e tmpdir w = (Inr path, w1)"
    and "validatePackageNames e (getPackagesToInstallFromArgv argv) [] = Inl err"
  shows "main e tmpdir argv w = (Inl err, cleanup path w1)"
  using assms unfolding main_def by (simp add: Let_def)

lemma import_logs_error:
  assumes "validatePackageNames e (getPackagesToInstallFromArgv (stringArgv e args)) (installedPackages s) = Inr ()"
    and "Inl err \<in> set (fst (startAll e (getPackagesToInstallFromArgv (stringArgv e args)) (installPath s) w))"
  shows "\<exists>err' w1. importAdditionalPackagesViaCommand e args (s, w) = (Some err', s, w1)"
proof -
  let ?new = "getPackagesToInstallFromArgv (stringArgv e args)"
  obtain rs w1 where st: "startAll e ?new (installPath s) w = (rs, w1)"
    by (cases "startAll e ?new (installPath s) w")
  with assms(2) have "Inl err \<in> set rs" by simp
  from promiseAll_Inl[OF this] obtain err' where "promiseAll rs = Inl err'" by blast
  with st have "installPackages e ?new (installPath s) w = (Inl err', w1)"
    unfolding installPackages_def by simp
  from import_install_failed[OF assms(1) this] show ?thesis by blast
qed

lemma installPackages_Inr_all:
  assumes "installPackages e pkgs path w = (Inr newly, w1)"
  shows "fst (startAll e pkgs path w) = map Inr newly"
  using assms unfolding installPackages_def
  by (cases "startAll e pkgs path w") (auto dest: promiseAll_Inr)

subsection \<open>The importer\<close>

lemma importPackageIntoContext_loaded:
  assumes "loadModule e (uuid p @ subpath p) (''file://'' @ parentDir (installedPath p)) = Some pkg"
  shows "importPackageIntoContext e ctx p =
           Inr (ctx(alias p \<mapsto>
                  (if length (objectKeys pkg) = 1 \<and> truthy (getProp pkg ''default'')
                   then getProp pkg ''default'' else JObj pkg)))"
  using assms unfolding importPackageIntoContext_def by (auto simp: Let_def)

subsection \<open>Overlapping and serial handlers\<close>

lemma import_split:
  "importAdditionalPackagesViaCommand e args (s, w) =
     (case importBegin e args (s, w) of
        (Inl err, w1) \<Rightarrow> (Some err, s, w1)
      | (Inr r, w1) \<Rightarrow> (case importResume e r s of (x, s1) \<Rightarrow> (x, s1, w1)))"
  unfolding importAdditionalPackagesViaCommand_def importBegin_def importResume_def
  by (auto simp: Let_def split: sum.splits prod.splits)

lemma serial_step:
  "replStep e (InstallsSettled 0) (replStep e (ImportEntered args) (s, w, [])) =
     (fst (snd (importAdditionalPackagesViaCommand e args (s, w))),
      snd (snd (importAdditionalPackagesViaCommand e args (s, w))), [])"
  unfolding import_split
  by (auto split: sum.splits prod.splits)

lemma serialImports_distinct:
  assumes "distinct (map alias (installedPackages s))"
  shows "distinct (map alias (installedPackages
           (fst (runEvents e (serialImports argss) (s, w, [])))))"
  using assms unfolding runEvents_def
proof (induction argss arbitrary: s w)
  case Nil
  then show ?case by simp
next
  case (Cons args rest)
  let ?r = "importAdditionalPackagesViaCommand e args (s, w)"
  from import_distinct[OF Cons.prems, of e args w]
  have d: "distinct (map alias (installedPackages (fst (snd ?r))))" .
  have "fold (replStep e) (serialImports (args # rest)) (s, w, [])
          = fold (replStep e) (serialImports rest) (fst (snd ?r), snd (snd ?r), [])"
    using serial_step[of e args s w] by simp
  with Cons.IH[OF d] show ?case by simp
qed

lemma serial_session_distinct:
  assumes "main e tmpdir argv w0 = (Inr s0, w1)"
  shows "distinct (map alias (installedPackages
           (fst (runEvents e (serialImports argss) (s0, w1, [])))))"
  using main_distinct[OF assms] by (rule serialImports_distinct)

lemma validatePackageNames_duplicate:
  assumes "\<not> distinct (map alias new @ map alias already)"
  shows "\<exists>err. validatePackageNames e new already = Inl err"
proof -
  from assms have "validatePackageNames e new already \<noteq> Inr ()"
    unfolding validatePackageNames_Inr_iff by blast
  with validatePackageNames_cases[of e new already] show ?thesis by blast
qed

subsection \<open>The alias check and the host language\<close>

lemma ascii_is_host: "isAsciiIdentifier n \<Longrightarrow> hostIdentifierName n"
  unfolding isAsciiIdentifier_def hostIdentifierName_def asciiIdentifierStart_def
    asciiIdentifierPart_def hostIdentifierStart_def hostIdentifierPart_def
  by (cases n) auto

lemma JS_RESERVED_WORDS_host:
  "n \<in> set JS_RESERVED_WORDS \<longleftrightarrow>
     (n \<in> set hostReservedWords \<and> n \<noteq> ''await'') \<or> n = ''let''"
  unfolding JS_RESERVED_WORDS_def hostReservedWords_def by auto

section \<open>Claims\<close>

text \<open>
  C1. For every specifier \<open>s\<close> that the pattern of \<^verbatim>\<open>parsePackageSpec\<close> matches, the
  fields returned satisfy \<open>scope + name + version + subpath = s\<close> and
  \<open>install = scope + name + version\<close>.
\<close>

theorem parsePackageSpec_roundtrip:
  assumes "regexTest packageSpecPattern s"
  shows "scope (parsePackageSpec s) @ name (parsePackageSpec s) @ version (parsePackageSpec s)
           @ subpath (parsePackageSpec s) = s
       \<and> install (parsePackageSpec s) =
           scope (parsePackageSpec s) @ name (parsePackageSpec s) @ version (parsePackageSpec s)"
  using parsePackageSpec_matched[OF assms] by auto

theorem parsePackageSpec_roundtrip_witness:
  "regexTest packageSpecPattern ''@org/module@4.0.0/subpath''
   \<and> scope (parsePackageSpec ''@org/module@4.0.0/subpath'')
       @ name (parsePackageSpec ''@org/module@4.0.0/subpath'')
       @ version (parsePackageSpec ''@org/module@4.0.0/subpath'')
       @ subpath (parsePackageSpec ''@org/module@4.0.0/subpath'') = ''@org/module@4.0.0/subpath''
   \<and> install (parsePackageSpec ''@org/module@4.0.0/subpath'') =
       scope (parsePackageSpec ''@org/module@4.0.0/subpath'')
       @ name (parsePackageSpec ''@org/module@4.0.0/subpath'')
       @ version (parsePackageSpec ''@org/module@4.0.0/subpath'')"
proof -
  have h: "regexTest packageSpecPattern ''@org/module@4.0.0/subpath''"
    by code_simp
  from parsePackageSpec_roundtrip[OF h] h show ?thesis by blast
qed

text \<open>
  C8. \<open>parsePackageSpec\<close> returns a record for every input and has no failing path: a
  string the pattern does not match (the empty string and every string that begins with
  \<open>/\<close> among them) gives the empty string in every field, and a string the pattern
  matches gives the empty string in the field of every optional part that is absent.
\<close>

theorem parsePackageSpec_total:
  "(\<not> regexTest packageSpecPattern s \<longrightarrow>
      parsePackageSpec s = \<lparr> install = [], scope = [], name = [], version = [], subpath = [] \<rparr>)
   \<and> parsePackageSpec [] = \<lparr> install = [], scope = [], name = [], version = [], subpath = [] \<rparr>
   \<and> parsePackageSpec (CHR ''/'' # t) =
        \<lparr> install = [], scope = [], name = [], version = [], subpath = [] \<rparr>
   \<and> (specParts sc nm ver sub \<longrightarrow>
        parsePackageSpec (sc @ nm @ ver @ sub) =
          \<lparr> install = sc @ nm @ ver, scope = sc, name = nm, version = ver, subpath = sub \<rparr>)"
proof (intro conjI impI)
  show "parsePackageSpec [] = \<lparr> install = [], scope = [], name = [], version = [], subpath = [] \<rparr>"
    by (rule parsePackageSpec_unmatched[OF not_matched_empty])
  show "parsePackageSpec (CHR ''/'' # t) =
        \<lparr> install = [], scope = [], name = [], version = [], subpath = [] \<rparr>"
    by (rule parsePackageSpec_unmatched[OF not_matched_slash])
qed (fact parsePackageSpec_unmatched parsePackageSpec_parts)+

theorem parsePackageSpec_total_witness:
  "\<not> regexTest packageSpecPattern ''a/''
   \<and> parsePackageSpec ''a/'' = \<lparr> install = [], scope = [], name = [], version = [], subpath = [] \<rparr>
   \<and> specParts [] ''module'' ''@4.0.0'' []
   \<and> parsePackageSpec ''module@4.0.0'' =
        \<lparr> install = ''module@4.0.0'', scope = [], name = ''module'', version = ''@4.0.0'',
          subpath = [] \<rparr>"
proof -
  have a: "\<not> regexTest packageSpecPattern ''a/''" by code_simp
  have b: "specParts [] ''module'' ''@4.0.0'' []"
    by (simp add: specParts_def isName_def isVersion_def)
  have c: "[] @ ''module'' @ ''@4.0.0'' @ [] = ''module@4.0.0''" "[] @ ''module'' @ ''@4.0.0'' = ''module@4.0.0''" by simp_all
  from parsePackageSpec_total[where s = "''a/''" and sc = "[]" and nm = "''module''" and ver = "''@4.0.0''" and sub = "[]"] a b
  show ?thesis unfolding c by blast
qed



text \<open>
  C3. The mapper gives one record per token, in order; a token with \<open>=\<close> takes its
  alias from the text before the first \<open>=\<close>. Its specifier, however, is the second
  piece of \<^verbatim>\<open>arg.split('=')\<close>, which ends at the second \<open>=\<close>: for the token
  \<open>l=lodash@>=4.0.0\<close> the specifier parsed and stored is \<open>lodash@>\<close>, while the text
  after the first \<open>=\<close> is \<open>lodash@>=4.0.0\<close>.
\<close>

theorem second_equals_sign_truncates_spec:
  "getPackagesToInstallFromArgv [''l=lodash@>=4.0.0''] =
     [\<lparr> install = ''lodash@>'', scope = [], name = ''lodash'', version = ''@>'', subpath = [],
        spec = ''lodash@>'', alias = ''l'' \<rparr>]
   \<and> drop 1 (dropWhile (\<lambda>c. c \<noteq> CHR ''='') ''l=lodash@>=4.0.0'') = ''lodash@>=4.0.0''"
  by code_simp

text \<open>
  C6. The two records mapped from \<open>lodash@3.0.0\<close> and \<open>lodash@4.0.0\<close> both get the
  alias \<open>lodash\<close> and are rejected for the duplicate alias; the two records mapped from
  \<open>l1=lodash@3.0.0\<close> and \<open>l2=lodash@3.0.0\<close> pass validation. The name \<open>lodash\<close> is
  taken to be one that \<^verbatim>\<open>validate-npm-package-name\<close> reports no error for.
\<close>

theorem lodash_duplicate_alias:
  assumes "\<not> hasErrors (validateNpmPackageName e ''lodash'')"
  shows "validatePackageNames e (getPackagesToInstallFromArgv [''lodash@3.0.0'', ''lodash@4.0.0'']) []
           = Inl DuplicateAlias
       \<and> validatePackageNames e
           (getPackagesToInstallFromArgv [''l1=lodash@3.0.0'', ''l2=lodash@3.0.0'']) [] = Inr ()"
proof
  have "checkEach e (getPackagesToInstallFromArgv [''lodash@3.0.0'', ''lodash@4.0.0'']) = Inr ()"
    unfolding checkEach_Inr_iff lodash_tokens using assms lodash_aliases_valid by simp
  then show "validatePackageNames e (getPackagesToInstallFromArgv [''lodash@3.0.0'', ''lodash@4.0.0'']) []
           = Inl DuplicateAlias"
    unfolding validatePackageNames_def by (simp add: lodash_tokens)
next
  show "validatePackageNames e
           (getPackagesToInstallFromArgv [''l1=lodash@3.0.0'', ''l2=lodash@3.0.0'']) [] = Inr ()"
    unfolding validatePackageNames_Inr_iff checkEach_Inr_iff lodash_tokens
    using assms lodash_aliases_valid by simp
qed

theorem lodash_duplicate_alias_witness:
  "\<not> hasErrors (validateNpmPackageName sampleEnv ''lodash'')
   \<and> validatePackageNames sampleEnv
        (getPackagesToInstallFromArgv [''lodash@3.0.0'', ''lodash@4.0.0'']) [] = Inl DuplicateAlias
   \<and> validatePackageNames sampleEnv
        (getPackagesToInstallFromArgv [''l1=lodash@3.0.0'', ''l2=lodash@3.0.0'']) [] = Inr ()"
proof -
  have h: "\<not> hasErrors (validateNpmPackageName sampleEnv ''lodash'')"
    by (simp add: sampleEnv_def hasErrors_def)
  from lodash_duplicate_alias[OF h] h show ?thesis by blast
qed

text \<open>
  C5, as the claim states it, fails in the startup path: there the \<^verbatim>\<open>catch\<close> block of
  \<^verbatim>\<open>main\<close> runs \<^verbatim>\<open>cleanup\<close>, so after a validation error the install root that
  \<^verbatim>\<open>createInstallationDirectory\<close> made is gone, not untouched. In the sample world, with
  the token \<open>1x\<close>:
\<close>

theorem startup_validation_error_removes_install_root:
  "fst (createInstallationDirectory sampleEnv ''/tmp'' sampleWorld) = Inr ''/tmp/repl-with-XXXXXX''
   \<and> fs (snd (createInstallationDirectory sampleEnv ''/tmp'' sampleWorld)) ''/tmp/repl-with-XXXXXX''
       = Some []
   \<and> validatePackageNames sampleEnv (getPackagesToInstallFromArgv [''1x'']) []
       = Inl (InvalidAlias ''1x'')
   \<and> fs (snd (main sampleEnv ''/tmp'' [''1x''] sampleWorld)) ''/tmp/repl-with-XXXXXX'' = None
   \<and> snd (main sampleEnv ''/tmp'' [''1x''] sampleWorld)
       \<noteq> snd (createInstallationDirectory sampleEnv ''/tmp'' sampleWorld)"
proof -
  have 1: "fst (createInstallationDirectory sampleEnv ''/tmp'' sampleWorld) = Inr ''/tmp/repl-with-XXXXXX''"
    by code_simp
  have 2: "fs (snd (createInstallationDirectory sampleEnv ''/tmp'' sampleWorld)) ''/tmp/repl-with-XXXXXX''
       = Some []"
    by code_simp
  have 3: "validatePackageNames sampleEnv (getPackagesToInstallFromArgv [''1x'']) []
       = Inl (InvalidAlias ''1x'')"
    by code_simp
  have 4: "fs (snd (main sampleEnv ''/tmp'' [''1x''] sampleWorld)) ''/tmp/repl-with-XXXXXX'' = None"
    by code_simp
  from 2 4 have 5: "snd (main sampleEnv ''/tmp'' [''1x''] sampleWorld)
       \<noteq> snd (createInstallationDirectory sampleEnv ''/tmp'' sampleWorld)"
    by auto
  from 1 2 3 4 5 show ?thesis by blast
qed

text \<open>
  C5, amended. When \<open>validatePackageNames\<close> throws, no installation has been attempted
  for any package of the batch. At startup the error is thrown again after \<^verbatim>\<open>cleanup\<close>:
  no shell command was issued, no UUID was drawn, and the install root, still without
  packages, has been removed. In the \<^verbatim>\<open>.import\<close> path the error is printed and the
  session and the world, the install root and the installed-package list among them, are
  exactly as before.
\<close>

theorem validation_error_before_install:
  assumes "validatePackageNames e (getPackagesToInstallFromArgv argv) already = Inl err"
  shows "(already = [] \<and> createInstallationDirectory e tmpdir w = (Inr path, w1) \<longrightarrow>
            main e tmpdir argv w = (Inl err, cleanup path w1)
            \<and> shell (cleanup path w1) = shell w
            \<and> uuidCount (cleanup path w1) = uuidCount w
            \<and> fs (cleanup path w1) = (fs w)(path := None))
       \<and> (stringArgv e args = argv \<and> installedPackages s = already \<longrightarrow>
            importAdditionalPackagesViaCommand e args (s, w') = (Some err, s, w'))"
proof (intro conjI impI)
  assume a: "already = [] \<and> createInstallationDirectory e tmpdir w = (Inr path, w1)"
  with assms show "main e tmpdir argv w = (Inl err, cleanup path w1)"
    by (simp add: main_validation_failed)
  from a have w1: "w1 = w\<lparr>fs := (fs w)(path \<mapsto> [])\<rparr>"
    using createInstallationDirectory_Inr by blast
  show "shell (cleanup path w1) = shell w" unfolding w1 cleanup_def by simp
  show "uuidCount (cleanup path w1) = uuidCount w" unfolding w1 cleanup_def by simp
  show "fs (cleanup path w1) = (fs w)(path := None)" unfolding w1 cleanup_def by simp
next
  assume "stringArgv e args = argv \<and> installedPackages s = already"
  with assms show "importAdditionalPackagesViaCommand e args (s, w') = (Some err, s, w')"
    by (simp add: import_validation_failed)
qed

theorem validation_error_before_install_witness:
  "validatePackageNames sampleEnv (getPackagesToInstallFromArgv [''1x'']) [] = Inl (InvalidAlias ''1x'')
   \<and> createInstallationDirectory sampleEnv ''/tmp'' sampleWorld
       = (Inr ''/tmp/repl-with-XXXXXX'', snd (createInstallationDirectory sampleEnv ''/tmp'' sampleWorld))
   \<and> stringArgv sampleEnv ''1x'' = [''1x'']
   \<and> installedPackages emptySession = []
   \<and> main sampleEnv ''/tmp'' [''1x''] sampleWorld
       = (Inl (InvalidAlias ''1x''),
          cleanup ''/tmp/repl-with-XXXXXX'' (snd (createInstallationDirectory sampleEnv ''/tmp'' sampleWorld)))
   \<and> shell (snd (main sampleEnv ''/tmp'' [''1x''] sampleWorld)) = []
   \<and> importAdditionalPackagesViaCommand sampleEnv ''1x'' (emptySession, sampleWorld)
       = (Some (InvalidAlias ''1x''), emptySession, sampleWorld)"
proof -
  have v: "validatePackageNames sampleEnv (getPackagesToInstallFromArgv [''1x'']) [] = Inl (InvalidAlias ''1x'')"
    by code_simp
  have "fst (createInstallationDirectory sampleEnv ''/tmp'' sampleWorld) = Inr ''/tmp/repl-with-XXXXXX''"
    by code_simp
  then have c: "createInstallationDirectory sampleEnv ''/tmp'' sampleWorld
       = (Inr ''/tmp/repl-with-XXXXXX'', snd (createInstallationDirectory sampleEnv ''/tmp'' sampleWorld))"
    by (metis prod.collapse)
  have a: "stringArgv sampleEnv ''1x'' = [''1x'']" by code_simp
  have i: "installedPackages emptySession = []" by (simp add: emptySession_def)
  have sw: "shell sampleWorld = []" by (simp add: sampleWorld_def)
  note t = validation_error_before_install[OF v, of "''/tmp''" sampleWorld
      "''/tmp/repl-with-XXXXXX''" "snd (createInstallationDirectory sampleEnv ''/tmp'' sampleWorld)"
      "''1x''" emptySession sampleWorld]
  from t c a i have m: "main sampleEnv ''/tmp'' [''1x''] sampleWorld
       = (Inl (InvalidAlias ''1x''),
          cleanup ''/tmp/repl-with-XXXXXX'' (snd (createInstallationDirectory sampleEnv ''/tmp'' sampleWorld)))"
    and s: "shell (cleanup ''/tmp/repl-with-XXXXXX'' (snd (createInstallationDirectory sampleEnv ''/tmp'' sampleWorld))) = shell sampleWorld"
    and p: "importAdditionalPackagesViaCommand sampleEnv ''1x'' (emptySession, sampleWorld)
       = (Some (InvalidAlias ''1x''), emptySession, sampleWorld)"
    by blast+
  from m s sw have "shell (snd (main sampleEnv ''/tmp'' [''1x''] sampleWorld)) = []" by simp
  with v c a i m p show ?thesis by blast
qed

text \<open>
  C9. In the handler of \<^verbatim>\<open>.import\<close>, when validation fails or any installation of the
  batch fails, the error is printed and the session, its installed-package list
  included, is exactly as it was before the command. The list changes only by appending
  the whole batch, and only when every installation of the batch has succeeded.
\<close>

theorem failed_import_keeps_list:
  "((\<exists>err. validatePackageNames e (getPackagesToInstallFromArgv (stringArgv e args))
              (installedPackages s) = Inl err)
     \<or> (\<exists>err. Inl err \<in> set (fst (startAll e (getPackagesToInstallFromArgv (stringArgv e args))
                                   (installPath s) w)))
     \<longrightarrow> fst (snd (importAdditionalPackagesViaCommand e args (s, w))) = s
         \<and> fst (importAdditionalPackagesViaCommand e args (s, w)) \<noteq> None)
   \<and> (installedPackages (fst (snd (importAdditionalPackagesViaCommand e args (s, w))))
         \<noteq> installedPackages s
       \<longrightarrow> (\<exists>newly.
              fst (startAll e (getPackagesToInstallFromArgv (stringArgv e args)) (installPath s) w)
                = map Inr newly
              \<and> installedPackages (fst (snd (importAdditionalPackagesViaCommand e args (s, w))))
                  = installedPackages s @ newly))"
proof (intro conjI impI)
  let ?new = "getPackagesToInstallFromArgv (stringArgv e args)"
  assume a: "(\<exists>err. validatePackageNames e ?new (installedPackages s) = Inl err)
     \<or> (\<exists>err. Inl err \<in> set (fst (startAll e ?new (installPath s) w)))"
  have "\<exists>err' w1. importAdditionalPackagesViaCommand e args (s, w) = (Some err', s, w1)"
  proof (cases "validatePackageNames e ?new (installedPackages s)")
    case (Inl err)
    from import_validation_failed[OF this] show ?thesis by blast
  next
    case (Inr u)
    then have v: "validatePackageNames e ?new (installedPackages s) = Inr ()" by simp
    with a obtain err where "Inl err \<in> set (fst (startAll e ?new (installPath s) w))" by auto
    from import_logs_error[OF v this] show ?thesis .
  qed
  then show "fst (snd (importAdditionalPackagesViaCommand e args (s, w))) = s"
    and "fst (importAdditionalPackagesViaCommand e args (s, w)) \<noteq> None"
    by auto
next
  let ?new = "getPackagesToInstallFromArgv (stringArgv e args)"
  assume "installedPackages (fst (snd (importAdditionalPackagesViaCommand e args (s, w))))
         \<noteq> installedPackages s"
  with import_list_cases[of e args s w] obtain newly w1 where
    i: "installPackages e ?new (installPath s) w = (Inr newly, w1)"
    and l: "installedPackages (fst (snd (importAdditionalPackagesViaCommand e args (s, w))))
            = installedPackages s @ newly"
    by blast
  from installPackages_Inr_all[OF i] l
  show "\<exists>newly. fst (startAll e ?new (installPath s) w) = map Inr newly
              \<and> installedPackages (fst (snd (importAdditionalPackagesViaCommand e args (s, w))))
                  = installedPackages s @ newly"
    by blast
qed

theorem failed_import_keeps_list_witness:
  "Inl (InstallFailed ''moment'')
     \<in> set (fst (startAll lodashOnlyEnv
                (getPackagesToInstallFromArgv (stringArgv lodashOnlyEnv ''l=lodash m=moment''))
                (installPath sampleSession) (snd sampleStart)))
   \<and> fst (snd (importAdditionalPackagesViaCommand lodashOnlyEnv ''l=lodash m=moment''
                 (sampleSession, snd sampleStart))) = sampleSession
   \<and> fst (importAdditionalPackagesViaCommand lodashOnlyEnv ''l=lodash m=moment''
            (sampleSession, snd sampleStart)) \<noteq> None
   \<and> installedPackages (fst (snd (importAdditionalPackagesViaCommand sampleEnv ''l=lodash m=moment''
         (sampleSession, snd sampleStart)))) \<noteq> installedPackages sampleSession
   \<and> (\<exists>newly.
         fst (startAll sampleEnv (getPackagesToInstallFromArgv (stringArgv sampleEnv ''l=lodash m=moment''))
               (installPath sampleSession) (snd sampleStart)) = map Inr newly
         \<and> installedPackages (fst (snd (importAdditionalPackagesViaCommand sampleEnv ''l=lodash m=moment''
               (sampleSession, snd sampleStart)))) = installedPackages sampleSession @ newly)"
proof -
  have a: "Inl (InstallFailed ''moment'')
     \<in> set (fst (startAll lodashOnlyEnv
                (getPackagesToInstallFromArgv (stringArgv lodashOnlyEnv ''l=lodash m=moment''))
                (installPath sampleSession) (snd sampleStart)))"
    by code_simp
  have "map alias (installedPackages (fst (snd (importAdditionalPackagesViaCommand sampleEnv ''l=lodash m=moment''
         (sampleSession, snd sampleStart))))) \<noteq> map alias (installedPackages sampleSession)"
    by code_simp
  then have c: "installedPackages (fst (snd (importAdditionalPackagesViaCommand sampleEnv ''l=lodash m=moment''
         (sampleSession, snd sampleStart)))) \<noteq> installedPackages sampleSession"
    by auto
  note t1 = failed_import_keeps_list[of lodashOnlyEnv "''l=lodash m=moment''" sampleSession "snd sampleStart"]
  note t2 = failed_import_keeps_list[of sampleEnv "''l=lodash m=moment''" sampleSession "snd sampleStart"]
  from t1 a have 1: "fst (snd (importAdditionalPackagesViaCommand lodashOnlyEnv ''l=lodash m=moment''
                 (sampleSession, snd sampleStart))) = sampleSession
     \<and> fst (importAdditionalPackagesViaCommand lodashOnlyEnv ''l=lodash m=moment''
            (sampleSession, snd sampleStart)) \<noteq> None"
    by blast
  from t2 c have 2: "\<exists>newly.
         fst (startAll sampleEnv (getPackagesToInstallFromArgv (stringArgv sampleEnv ''l=lodash m=moment''))
               (installPath sampleSession) (snd sampleStart)) = map Inr newly
         \<and> installedPackages (fst (snd (importAdditionalPackagesViaCommand sampleEnv ''l=lodash m=moment''
               (sampleSession, snd sampleStart)))) = installedPackages sampleSession @ newly"
    by blast
  from a 1 c 2 show ?thesis by blast
qed

text \<open>
  C4. The default export is bound to the alias when the module has exactly one export
  name and the value of \<^verbatim>\<open>pkg['default']\<close> is truthy. A module whose only export
  is a default export with a falsy value, here \<^verbatim>\<open>export default 0\<close>, is therefore
  bound as the module object, not as its default value.
\<close>

theorem falsy_default_export_keeps_module:
  "importPackageIntoContext sampleEnv ctx p = Inr (ctx(alias p \<mapsto> JObj [(''default'', JNum 0)]))
   \<and> loadModule sampleEnv (uuid p @ subpath p) (''file://'' @ parentDir (installedPath p))
       = Some [(''default'', JNum 0)]
   \<and> objectKeys [(''default'', JNum 0)] = [''default'']
   \<and> getProp [(''default'', JNum 0)] ''default'' = JNum 0"
proof -
  have l: "loadModule sampleEnv (uuid p @ subpath p) (''file://'' @ parentDir (installedPath p))
       = Some [(''default'', JNum 0)]"
    by (simp add: sampleEnv_def)
  from importPackageIntoContext_loaded[OF l, of ctx] l show ?thesis
    by (simp add: objectKeys_def getProp_def)
qed

text \<open>
  C2. The handler of \<^verbatim>\<open>.import\<close> validates before its \<^verbatim>\<open>await\<close> and pushes after it,
  so two handlers that overlap both validate against the list as it was before either
  pushed. In the sample world, after startup with \<open>lodash\<close>, the line
  \<^verbatim>\<open>.import m=express\<close> entered while \<^verbatim>\<open>.import l=lodash m=moment\<close> still installs passes
  validation, and the list ends with the alias \<open>m\<close> twice. Without overlap the aliases
  stay pairwise distinct (lemma \<open>serial_session_distinct\<close>); validation throws on every
  duplicate (lemma \<open>validatePackageNames_duplicate\<close>), and the list grows only after
  validation has succeeded (lemma \<open>import_list_cases\<close>).
\<close>

theorem overlapping_imports_duplicate_alias:
  "main sampleEnv ''/tmp'' [''lodash''] sampleWorld = (Inr sampleSession, snd sampleStart)
   \<and> validatePackageNames sampleEnv
        (getPackagesToInstallFromArgv (stringArgv sampleEnv ''l=lodash m=moment''))
        (installedPackages sampleSession) = Inr ()
   \<and> validatePackageNames sampleEnv
        (getPackagesToInstallFromArgv (stringArgv sampleEnv ''m=express''))
        (installedPackages sampleSession) = Inr ()
   \<and> map alias (installedPackages (fst (runEvents sampleEnv
         [ImportEntered ''l=lodash m=moment'', ImportEntered ''m=express'',
          InstallsSettled 0, InstallsSettled 0]
         (sampleSession, snd sampleStart, [])))) = [''lodash'', ''l'', ''m'', ''m'']
   \<and> \<not> distinct (map alias (installedPackages (fst (runEvents sampleEnv
         [ImportEntered ''l=lodash m=moment'', ImportEntered ''m=express'',
          InstallsSettled 0, InstallsSettled 0]
         (sampleSession, snd sampleStart, [])))))"
proof -
  have h: "main sampleEnv ''/tmp'' [''lodash''] sampleWorld = (Inr sampleSession, snd sampleStart)"
    using sampleStart_ok unfolding sampleStart_def .
  have v1: "validatePackageNames sampleEnv
        (getPackagesToInstallFromArgv (stringArgv sampleEnv ''l=lodash m=moment''))
        (installedPackages sampleSession) = Inr ()"
    by code_simp
  have v2: "validatePackageNames sampleEnv
        (getPackagesToInstallFromArgv (stringArgv sampleEnv ''m=express''))
        (installedPackages sampleSession) = Inr ()"
    by code_simp
  have l: "map alias (installedPackages (fst (runEvents sampleEnv
         [ImportEntered ''l=lodash m=moment'', ImportEntered ''m=express'',
          InstallsSettled 0, InstallsSettled 0]
         (sampleSession, snd sampleStart, [])))) = [''lodash'', ''l'', ''m'', ''m'']"
    by code_simp
  have d: "\<not> distinct [''lodash'', ''l'', ''m'', ''m'']" by simp
  from h v1 v2 l d show ?thesis by simp
qed

text \<open>
  C7, as the claim states it, fails: the alias check does not accept exactly the
  identifiers of the host language that are not reserved words. The identifier that is the
  single letter e with an acute accent (code unit \<^verbatim>\<open>0xE9\<close>) is legal and not reserved,
  and is rejected; the reserved word
  \<open>await\<close> is accepted.
\<close>

theorem host_identifier_rejected_reserved_word_accepted:
  "hostIdentifierName [CHR 0xE9] \<and> [CHR 0xE9] \<notin> set hostReservedWords
   \<and> \<not> isValidJsVariableName [CHR 0xE9]
   \<and> ''await'' \<in> set hostReservedWords \<and> isValidJsVariableName ''await''"
proof -
  have 1: "hostIdentifierName [CHR 0xE9]"
    by (simp add: hostIdentifierName_def hostIdentifierStart_def)
  have 2: "[CHR 0xE9] \<notin> set hostReservedWords" by (simp add: hostReservedWords_def)
  have 3: "\<not> isValidJsVariableName [CHR 0xE9]"
    unfolding isValidJsVariableName_identifier isAsciiIdentifier_def asciiIdentifierStart_def
      isLetter_def by simp
  have 4: "''await'' \<in> set hostReservedWords" by (simp add: hostReservedWords_def)
  have 5: "isValidJsVariableName ''await''"
    unfolding isValidJsVariableName_identifier isAsciiIdentifier_def asciiIdentifierStart_def
      asciiIdentifierPart_def isLetter_def JS_RESERVED_WORDS_def by simp
  from 1 2 3 4 5 show ?thesis by blast
qed

text \<open>
  C7, amended. Every alias that the check accepts is an identifier of the host language.
  Of the strings other than \<open>await\<close>, the check accepts exactly those that match its
  ASCII pattern (a letter, \<open>_\<close> or \<open>$\<close>, then letters, digits, \<open>_\<close> or \<open>$\<close>) and are
  neither a reserved word of the host language nor \<open>let\<close>: \<open>class\<close> is rejected, every
  string that starts with a digit is rejected, and \<open>_\<close> and \<open>$foo\<close> are accepted.
\<close>

theorem isValidJsVariableName_ascii_exact:
  "(isValidJsVariableName n \<longrightarrow> hostIdentifierName n)
   \<and> (n \<noteq> ''await'' \<longrightarrow>
        (isValidJsVariableName n \<longleftrightarrow>
           isAsciiIdentifier n \<and> n \<notin> set hostReservedWords \<and> n \<noteq> ''let''))
   \<and> \<not> isValidJsVariableName ''class''
   \<and> (isDigit c \<longrightarrow> \<not> isValidJsVariableName (c # cs))
   \<and> isValidJsVariableName ''_''
   \<and> isValidJsVariableName ''$foo''"
proof -
  have 1: "isValidJsVariableName n \<longrightarrow> hostIdentifierName n"
    unfolding isValidJsVariableName_identifier using ascii_is_host by blast
  have 2: "n \<noteq> ''await'' \<longrightarrow>
        (isValidJsVariableName n \<longleftrightarrow>
           isAsciiIdentifier n \<and> n \<notin> set hostReservedWords \<and> n \<noteq> ''let'')"
    unfolding isValidJsVariableName_identifier JS_RESERVED_WORDS_host by blast
  have 3: "\<not> isValidJsVariableName ''class''"
    unfolding isValidJsVariableName_def JS_RESERVED_WORDS_def by simp
  have 4: "isDigit c \<longrightarrow> \<not> isValidJsVariableName (c # cs)"
    unfolding isValidJsVariableName_identifier isAsciiIdentifier_def asciiIdentifierStart_def
      isLetter_def isDigit_def by auto
  have 5: "isValidJsVariableName ''_''"
    unfolding isValidJsVariableName_identifier isAsciiIdentifier_def asciiIdentifierStart_def
      JS_RESERVED_WORDS_def by simp
  have 6: "isValidJsVariableName ''$foo''"
    unfolding isValidJsVariableName_identifier isAsciiIdentifier_def asciiIdentifierStart_def
      asciiIdentifierPart_def isLetter_def JS_RESERVED_WORDS_def by simp
  from 1 2 3 4 5 6 show ?thesis by blast
qed

theorem isValidJsVariableName_ascii_exact_witness:
  "''lodash'' \<noteq> ''await''
   \<and> isAsciiIdentifier ''lodash'' \<and> ''lodash'' \<notin> set hostReservedWords \<and> ''lodash'' \<noteq> ''let''
   \<and> isValidJsVariableName ''lodash'' \<and> hostIdentifierName ''lodash''
   \<and> ''let'' \<noteq> ''await'' \<and> \<not> isValidJsVariableName ''let''
   \<and> isDigit CHR ''1'' \<and> \<not> isValidJsVariableName ''1abc''"
proof -
  have a: "''lodash'' \<noteq> ''await''" "''lodash'' \<noteq> ''let''" "''let'' \<noteq> ''await''" by simp_all
  have i: "isAsciiIdentifier ''lodash''"
    by (simp add: isAsciiIdentifier_def asciiIdentifierStart_def asciiIdentifierPart_def isLetter_def)
  have r: "''lodash'' \<notin> set hostReservedWords" by (simp add: hostReservedWords_def)
  have d: "isDigit CHR ''1''" by (simp add: isDigit_def)
  note t1 = isValidJsVariableName_ascii_exact[of "''lodash''" "CHR ''1''" "''abc''"]
  note t2 = isValidJsVariableName_ascii_exact[of "''let''" "CHR ''1''" "''abc''"]
  from t1 a i r have v: "isValidJsVariableName ''lodash''" by blast
  with t1 have h: "hostIdentifierName ''lodash''" by blast
  from t2 a have l: "\<not> isValidJsVariableName ''let''" by blast
  from t1 d have n: "\<not> isValidJsVariableName ''1abc''" by blast
  from a i r v h l d n show ?thesis by blast
qed

end
